theory Spec2Isabelle
  imports Main "HOL-Library.AList"
begin

section \<open>Strings as the source uses them\<close>

text \<open>
  Command strings are 7-bit ASCII; a string is modelled as a list of characters.
  The definitions in this section are the library calls of the source
  (\<^verbatim>\<open>startsWith\<close>, \<^verbatim>\<open>includes\<close>, \<^verbatim>\<open>trim\<close>, the character classes of the
  regular expressions), written out as list functions.
\<close>

definition isDigit :: "char \<Rightarrow> bool" where
  "isDigit c = (c \<in> set ''0123456789'')"

definition isUpper :: "char \<Rightarrow> bool" where
  "isUpper c = (c \<in> set ''ABCDEFGHIJKLMNOPQRSTUVWXYZ'')"

text \<open>The class \<^verbatim>\<open>\s\<close>, which is also what \<^verbatim>\<open>trim\<close> strips, on 8-bit characters:
  tab, line feed, vertical tab, form feed, carriage return, space, no-break space.\<close>

definition isSpace :: "char \<Rightarrow> bool" where
  "isSpace c = (of_char c \<in> {9, 10, 11, 12, 13, 32, 160 :: nat})"

definition trim :: "string \<Rightarrow> string" where
  "trim s = rev (dropWhile isSpace (rev (dropWhile isSpace s)))"

definition startsWith :: "string \<Rightarrow> string \<Rightarrow> bool" where
  "startsWith s p = (take (length p) s = p)"

text \<open>\<^verbatim>\<open>s.includes(sub)\<close>: \<open>sub\<close> occurs in \<open>s\<close> as a contiguous run.\<close>

fun includes_str :: "string \<Rightarrow> string \<Rightarrow> bool" where
  "includes_str [] sub = (sub = [])"
| "includes_str (c # cs) sub = (startsWith (c # cs) sub \<or> includes_str cs sub)"

text \<open>\<^verbatim>\<open>parseInt(s, 10)\<close> on a string of digits, and the decimal text of the number
  that the template string prints.\<close>

definition parseInt :: "string \<Rightarrow> nat" where
  "parseInt s = foldl (\<lambda>n c. 10 * n + (of_char c - 48)) 0 (takeWhile isDigit s)"

fun showNat :: "nat \<Rightarrow> string" where
  "showNat n =
     (if n < 10 then [char_of (48 + n)]
      else showNat (n div 10) @ [char_of (48 + n mod 10)])"

declare showNat.simps [simp del]

section \<open>Plain objects\<close>

text \<open>
  A plain JavaScript object used as a dictionary (\<^verbatim>\<open>Record<string, T>\<close>, the result of
  \<^verbatim>\<open>JSON.parse\<close>, an object literal) is the association list of its own properties, with
  distinct names, in the order in which \<^verbatim>\<open>Object.entries\<close> lists them: the names that
  are array indices first, in ascending order, then the other names in the order of
  their creation.

  Reading \<^verbatim>\<open>obj[key]\<close> goes through the prototype chain: a name that is not an own
  property but is a property of \<^verbatim>\<open>Object.prototype\<close> yields the inherited value, a function
  (or the prototype itself for \<^verbatim>\<open>__proto__\<close>), which is truthy and is neither an array nor
  iterable.
\<close>

definition objectPrototypeNames :: "string list" where
  "objectPrototypeNames =
     [''constructor'', ''hasOwnProperty'', ''isPrototypeOf'', ''propertyIsEnumerable'',
      ''toLocaleString'', ''toString'', ''valueOf'', ''__proto__'',
      ''__defineGetter__'', ''__defineSetter__'', ''__lookupGetter__'', ''__lookupSetter__'']"

datatype 'a propRead = Undefined | Inherited | Own 'a

definition getProp :: "(string \<times> 'a) list \<Rightarrow> string \<Rightarrow> 'a propRead" where
  "getProp obj key =
     (case map_of obj key of
        Some v \<Rightarrow> Own v
      | None \<Rightarrow> if key \<in> set objectPrototypeNames then Inherited else Undefined)"

text \<open>An array index is the decimal text, without leading zeros, of a number below
  \<open>2^32 - 1\<close>.\<close>

definition isArrayIndex :: "string \<Rightarrow> bool" where
  "isArrayIndex k =
     (if k = [] \<or> \<not> list_all isDigit k then False
      else if k \<noteq> ''0'' \<and> hd k = CHR ''0'' then False
      else parseInt k < 4294967295)"

text \<open>Assigning \<^verbatim>\<open>obj[key] = v\<close> for a name other than \<^verbatim>\<open>__proto__\<close>: an own property keeps
  its place; a new array index goes to its place among the indices; any other new name
  goes to the end.\<close>

fun insertIndex :: "nat \<Rightarrow> string \<times> 'a \<Rightarrow> (string \<times> 'a) list \<Rightarrow> (string \<times> 'a) list" where
  "insertIndex n e [] = [e]"
| "insertIndex n e ((k, v) # rest) =
     (if isArrayIndex k \<and> parseInt k < n then (k, v) # insertIndex n e rest
      else e # (k, v) # rest)"

definition setProp :: "string \<Rightarrow> 'a \<Rightarrow> (string \<times> 'a) list \<Rightarrow> (string \<times> 'a) list" where
  "setProp key v obj =
     (if key \<in> fst ` set obj then AList.update key v obj
      else if isArrayIndex key then insertIndex (parseInt key) (key, v) obj
      else obj @ [(key, v)])"

datatype jsError = TypeError

section \<open>Registering the admin number\<close>

text \<open>
  \<^verbatim>\<open>registerAdminNumber\<close> of the setup step screen (the part of the source with the
  \<^verbatim>\<open>sendSMS\<close> call): the digits of the input are kept, one leading \<^verbatim>\<open>0\<close> is removed
  whenever there is one, and \<^verbatim>\<open>00\<close> is put in front unless the result starts with it.
\<close>

definition formattedAdminNumber :: "string \<Rightarrow> string" where
  "formattedAdminNumber adminNumber =
     (let f0 = filter isDigit adminNumber;
          f1 = (if startsWith f0 ''0'' then drop 1 f0 else f0);
          f2 = (if \<not> startsWith f1 ''00'' then ''00'' @ f1 else f1)
      in f2)"

text \<open>The function itself: no command is sent when the relay number or the admin
  number is empty; otherwise the command handed to \<^verbatim>\<open>sendSMS\<close> is returned.\<close>

definition registerAdminNumber :: "string \<Rightarrow> string \<Rightarrow> string \<Rightarrow> string option" where
  "registerAdminNumber unitNumber password adminNumber =
     (if unitNumber = [] then None
      else if adminNumber = [] then None
      else Some (password @ ''TEL'' @ formattedAdminNumber adminNumber @ ''#''))"

text \<open>The same step in \<^verbatim>\<open>app/setup.tsx\<close>, which tests for a single leading zero.\<close>

definition formattedAdminNumber_setup :: "string \<Rightarrow> string" where
  "formattedAdminNumber_setup adminNumber =
     (let f0 = filter isDigit adminNumber
      in if startsWith f0 ''0'' \<and> \<not> startsWith f0 ''00'' then ''00'' @ drop 1 f0
         else if \<not> startsWith f0 ''00'' then ''00'' @ f0
         else f0)"

section \<open>The data model of \<^verbatim>\<open>utils/DataStore.ts\<close>\<close>

text \<open>
  The interfaces \<^verbatim>\<open>User\<close>, \<^verbatim>\<open>LogEntry\<close>, \<^verbatim>\<open>Device\<close>, \<^verbatim>\<open>GlobalSettings\<close> and
  \<^verbatim>\<open>AppData\<close>. Field names that several interfaces share (\<^verbatim>\<open>id\<close>, \<^verbatim>\<open>name\<close>) carry
  a prefix. An optional field is an \<open>option\<close>; \<^verbatim>\<open>string | null\<close> is a \<open>string option\<close>.
  \<^verbatim>\<open>LogEntry\<close> has the optional \<^verbatim>\<open>deviceId\<close> that the interface of the same name in
  \<^verbatim>\<open>utils/LogManager.ts\<close> adds; the store leaves it undefined.
  A \<^verbatim>\<open>Record<string, LogEntry[]>\<close> is a plain object from device id to bucket, read with
  \<open>getProp\<close>, written with \<open>setProp\<close>; \<^verbatim>\<open>delete\<close> is \<open>AList.delete\<close>.
\<close>

datatype category = Relay | Settings | UserCategory | System

datatype accessControl = AccessAUT | AccessALL

record RelaySettings =
  accessControl :: accessControl
  latchTime :: string

record User =
  u_id :: string
  u_name :: string
  phoneNumber :: string
  serialNumber :: string
  startTime :: "string option"
  endTime :: "string option"

record LogEntry =
  l_id :: string
  timestamp :: string
  action :: string
  details :: string
  success :: bool
  l_deviceId :: "string option"
  category :: category

record Device =
  d_id :: string
  d_name :: string
  unitNumber :: string
  password :: string
  authorizedUsers :: "string list"
  createdAt :: string
  updatedAt :: string
  relaySettings :: "RelaySettings option"

record GlobalSettings =
  adminNumber :: string
  activeDeviceId :: "string option"
  completedSteps :: "string list"

record AppData =
  devices :: "Device list"
  users :: "User list"
  logs :: "(string \<times> LogEntry list) list"
  globalSettings :: GlobalSettings

definition initialState :: AppData where
  "initialState =
     \<lparr>devices = [], users = [], logs = [],
      globalSettings = \<lparr>adminNumber = [], activeDeviceId = None, completedSteps = []\<rparr>\<rparr>"

text \<open>
  The singleton: the document in memory and the flag \<^verbatim>\<open>isInitialized\<close>.
  \<^verbatim>\<open>saveStore\<close> serialises the document to the key \<^verbatim>\<open>app_data\<close> and swallows a
  failed write; it changes neither the document in memory nor a return value, and the
  operations below are about the document in memory.
\<close>

record DataStore =
  store :: AppData
  isInitialized :: bool

text \<open>
  \<^verbatim>\<open>initialize\<close> returns at once on an initialised store. Otherwise it leaves in memory
  what persistence holds, or what the legacy migration makes of the current document,
  or the initial state after a failure: that document is the parameter \<open>load\<close>, a
  function of the document in memory.
\<close>

definition initialize :: "(AppData \<Rightarrow> AppData) \<Rightarrow> DataStore \<Rightarrow> DataStore" where
  "initialize load s =
     (if isInitialized s then s else \<lparr>store = load (store s), isInitialized = True\<rparr>)"

text \<open>\<^verbatim>\<open>findIndex\<close>: the index of the first element satisfying the test, \<open>None\<close> for -1.\<close>

fun findIndex :: "('a \<Rightarrow> bool) \<Rightarrow> 'a list \<Rightarrow> nat option" where
  "findIndex P [] = None"
| "findIndex P (x # xs) =
     (if P x then Some 0 else map_option Suc (findIndex P xs))"

text \<open>Truthiness of a \<^verbatim>\<open>string | null\<close>: neither \<^verbatim>\<open>null\<close> nor the empty string.\<close>

fun truthy :: "string option \<Rightarrow> bool" where
  "truthy None = False"
| "truthy (Some s) = (s \<noteq> [])"

subsection \<open>Device operations\<close>

text \<open>
  \<^verbatim>\<open>deleteDevice\<close>. The guard refuses the empty id and the text \<^verbatim>\<open>undefined\<close>. Then
  the store is initialised if it was not, the device is looked up, all devices with
  the id are filtered out, the bucket is deleted (\<^verbatim>\<open>delete\<close> does nothing for a name that
  is only inherited), and an active pointer to the deleted device moves to the first
  remaining device, or to \<^verbatim>\<open>null\<close>.
\<close>

definition deleteDevice :: "(AppData \<Rightarrow> AppData) \<Rightarrow> DataStore \<Rightarrow> string \<Rightarrow> bool \<times> DataStore" where
  "deleteDevice load s0 deviceId =
     (if deviceId = [] \<or> deviceId = ''undefined'' then (False, s0)
      else
        let s = initialize load s0;
            st = store s;
            initialLength = length (devices st)
        in case find (\<lambda>d. d_id d = deviceId) (devices st) of
             None \<Rightarrow> (False, s)
           | Some deviceToDelete \<Rightarrow>
               let ds = filter (\<lambda>d. d_id d \<noteq> deviceId) (devices st);
                   lg = (case getProp (logs st) deviceId of
                           Own b \<Rightarrow> AList.delete deviceId (logs st)
                         | Inherited \<Rightarrow> logs st
                         | Undefined \<Rightarrow> logs st);
                   gs = globalSettings st;
                   gs' = (if activeDeviceId gs = Some deviceId
                          then gs\<lparr>activeDeviceId :=
                                 (case ds of [] \<Rightarrow> None | d # _ \<Rightarrow> Some (d_id d))\<rparr>
                          else gs);
                   st' = st\<lparr>devices := ds, logs := lg, globalSettings := gs'\<rparr>
               in (initialLength \<noteq> length ds, s\<lparr>store := st'\<rparr>))"

text \<open>\<^verbatim>\<open>setActiveDevice\<close>: the test is \<^verbatim>\<open>deviceId && !devices.some(...)\<close>.\<close>

definition setActiveDevice :: "DataStore \<Rightarrow> string option \<Rightarrow> bool \<times> DataStore" where
  "setActiveDevice s deviceId =
     (if truthy deviceId \<and> \<not> (\<exists>d \<in> set (devices (store s)). Some (d_id d) = deviceId)
      then (False, s)
      else
        let st = store s
        in (True, s\<lparr>store := st\<lparr>globalSettings :=
                       (globalSettings st)\<lparr>activeDeviceId := deviceId\<rparr>\<rparr>\<rparr>))"

subsection \<open>User and authorisation operations\<close>

text \<open>\<^verbatim>\<open>deleteUser\<close>: the user list is filtered, every device's list is filtered, and
  the result says whether the user list became shorter.\<close>

definition deleteUser :: "DataStore \<Rightarrow> string \<Rightarrow> bool \<times> DataStore" where
  "deleteUser s userId =
     (let st = store s;
          initialLength = length (users st);
          us = filter (\<lambda>u. u_id u \<noteq> userId) (users st);
          ds = map (\<lambda>d. d\<lparr>authorizedUsers := filter (\<lambda>i. i \<noteq> userId) (authorizedUsers d)\<rparr>)
                   (devices st)
      in (initialLength \<noteq> length us, s\<lparr>store := st\<lparr>users := us, devices := ds\<rparr>\<rparr>))"

text \<open>\<^verbatim>\<open>authorizeUserForDevice\<close> pushes onto the list of the first device with the id.\<close>

definition authorizeUserForDevice :: "DataStore \<Rightarrow> string \<Rightarrow> string \<Rightarrow> bool \<times> DataStore" where
  "authorizeUserForDevice s deviceId userId =
     (let st = store s
      in case findIndex (\<lambda>d. d_id d = deviceId) (devices st) of
           None \<Rightarrow> (False, s)
         | Some i \<Rightarrow>
             let device = devices st ! i
             in if userId \<notin> set (authorizedUsers device)
                then (True, s\<lparr>store := st\<lparr>devices := (devices st)
                        [i := device\<lparr>authorizedUsers := authorizedUsers device @ [userId]\<rparr>]\<rparr>\<rparr>)
                else (False, s))"

text \<open>\<^verbatim>\<open>deauthorizeUserForDevice\<close> assigns the filtered list in either case and
  compares the lengths.\<close>

definition deauthorizeUserForDevice :: "DataStore \<Rightarrow> string \<Rightarrow> string \<Rightarrow> bool \<times> DataStore" where
  "deauthorizeUserForDevice s deviceId userId =
     (let st = store s
      in case findIndex (\<lambda>d. d_id d = deviceId) (devices st) of
           None \<Rightarrow> (False, s)
         | Some deviceIndex \<Rightarrow>
             let device = devices st ! deviceIndex;
                 initialLength = length (authorizedUsers device);
                 au = filter (\<lambda>i. i \<noteq> userId) (authorizedUsers device);
                 s' = s\<lparr>store := st\<lparr>devices := (devices st)
                        [deviceIndex := device\<lparr>authorizedUsers := au\<rparr>]\<rparr>\<rparr>
             in (initialLength \<noteq> length au, s'))"

subsection \<open>Log operations\<close>

text \<open>
  \<^verbatim>\<open>addDeviceLog\<close>. An empty or blank device id is replaced by \<^verbatim>\<open>system\<close>. An empty
  bucket is made when \<^verbatim>\<open>logs[deviceId]\<close> is falsy. The id and the timestamp of the new
  entry come from the random generator and the clock; they are arguments here. The
  bucket becomes the new entry followed by the first 199 entries of the old bucket.
  For a name that is only inherited no bucket is made, \<^verbatim>\<open>slice\<close> is not a function of
  the inherited value, and the call raises before it assigns.
\<close>

definition addDeviceLog ::
  "DataStore \<Rightarrow> string \<Rightarrow> string \<Rightarrow> string \<Rightarrow> string \<Rightarrow> string \<Rightarrow> bool \<Rightarrow> category
     \<Rightarrow> (jsError + LogEntry) \<times> DataStore" where
  "addDeviceLog s newId now deviceId0 act det succ cat =
     (let deviceId = (if deviceId0 = [] \<or> trim deviceId0 = [] then ''system'' else deviceId0);
          st = store s;
          logs1 = (case getProp (logs st) deviceId of
                     Undefined \<Rightarrow> setProp deviceId [] (logs st)
                   | Inherited \<Rightarrow> logs st
                   | Own b \<Rightarrow> logs st);
          s1 = s\<lparr>store := st\<lparr>logs := logs1\<rparr>\<rparr>;
          newLog = \<lparr>l_id = newId, timestamp = now, action = act, details = det,
                    success = succ, l_deviceId = None, category = cat\<rparr>
      in case getProp logs1 deviceId of
           Own old \<Rightarrow>
             (Inr newLog,
              s\<lparr>store := st\<lparr>logs := setProp deviceId (newLog # take 199 old) logs1\<rparr>\<rparr>)
         | Inherited \<Rightarrow> (Inl TypeError, s1)
         | Undefined \<Rightarrow> (Inl TypeError, s1))"

text \<open>\<^verbatim>\<open>getDeviceLogs\<close> copies the bucket with a spread, which raises on an inherited
  value.\<close>

definition getDeviceLogs :: "DataStore \<Rightarrow> string \<Rightarrow> jsError + LogEntry list" where
  "getDeviceLogs s deviceId0 =
     (let deviceId = (if deviceId0 = [] \<or> trim deviceId0 = [] then ''system'' else deviceId0)
      in case getProp (logs (store s)) deviceId of
           Own b \<Rightarrow> Inr b
         | Inherited \<Rightarrow> Inl TypeError
         | Undefined \<Rightarrow> Inr [])"

section \<open>The log manager, \<^verbatim>\<open>utils/LogManager.ts\<close>\<close>

subsection \<open>Regular expressions of the log manager\<close>

text \<open>
  \<^verbatim>\<open>sanitizeLogDetails\<close> replaces every match of \<^verbatim>\<open>/\d{4}([A-Z])/g\<close> by four stars and the
  letter: the scan goes from left to right and resumes after each match.
\<close>

fun sanitizeLogDetails :: "string \<Rightarrow> string" where
  "sanitizeLogDetails (a # b # c # d # e # rest) =
     (if isDigit a \<and> isDigit b \<and> isDigit c \<and> isDigit d \<and> isUpper e
      then ''****'' @ e # sanitizeLogDetails rest
      else a # sanitizeLogDetails (b # c # d # e # rest))"
| "sanitizeLogDetails s = s"

text \<open>\<^verbatim>\<open>s.match(re)\<close> without the global flag: the match at the leftmost position where
  there is one. \<open>m\<close> is the expression anchored at the start of its argument.\<close>

fun firstMatch :: "(string \<Rightarrow> 'a option) \<Rightarrow> string \<Rightarrow> 'a option" where
  "firstMatch m [] = m []"
| "firstMatch m (c # cs) = (case m (c # cs) of Some r \<Rightarrow> Some r | None \<Rightarrow> firstMatch m cs)"

text \<open>\<^verbatim>\<open>\d{4}A(\d{3})\<close> at the start: the serial and the rest of the string.\<close>

fun pwdASerial :: "string \<Rightarrow> (string \<times> string) option" where
  "pwdASerial (p1 # p2 # p3 # p4 # a # s1 # s2 # s3 # rest) =
     (if isDigit p1 \<and> isDigit p2 \<and> isDigit p3 \<and> isDigit p4 \<and> a = CHR ''A''
         \<and> isDigit s1 \<and> isDigit s2 \<and> isDigit s3
      then Some ([s1, s2, s3], rest) else None)"
| "pwdASerial s = None"

text \<open>\<^verbatim>\<open>/\d{4}A(\d{3})##/\<close> at the start.\<close>

definition removeUserRe :: "string \<Rightarrow> string option" where
  "removeUserRe s =
     (case pwdASerial s of
        None \<Rightarrow> None
      | Some (serial, rest) \<Rightarrow> if startsWith rest ''##'' then Some serial else None)"

text \<open>\<^verbatim>\<open>/\d{4}A(\d{3})#([^#]+)#/\<close> at the start: the second group is the longest run
  without \<^verbatim>\<open>#\<close>, which must be non-empty and followed by \<^verbatim>\<open>#\<close>.\<close>

definition addUserRe :: "string \<Rightarrow> (string \<times> string) option" where
  "addUserRe s =
     (case pwdASerial s of
        None \<Rightarrow> None
      | Some (serial, rest) \<Rightarrow>
          (case rest of
             [] \<Rightarrow> None
           | h # r \<Rightarrow>
               let phone = takeWhile (\<lambda>c. c \<noteq> CHR ''#'') r
               in if h = CHR ''#'' \<and> phone \<noteq> []
                     \<and> startsWith (dropWhile (\<lambda>c. c \<noteq> CHR ''#'') r) ''#''
                  then Some (serial, phone) else None))"

text \<open>\<^verbatim>\<open>/\d{4}GOT(\d{3})#/\<close> at the start.\<close>

fun latchRe :: "string \<Rightarrow> string option" where
  "latchRe (p1 # p2 # p3 # p4 # c1 # c2 # c3 # s1 # s2 # s3 # h # rest) =
     (if isDigit p1 \<and> isDigit p2 \<and> isDigit p3 \<and> isDigit p4
         \<and> c1 = CHR ''G'' \<and> c2 = CHR ''O'' \<and> c3 = CHR ''T''
         \<and> isDigit s1 \<and> isDigit s2 \<and> isDigit s3 \<and> h = CHR ''#''
      then Some [s1, s2, s3] else None)"
| "latchRe s = None"

subsection \<open>Storage of the log manager\<close>

text \<open>
  The log manager keeps one JSON array of entries under each key of the key-value
  store: the store is an association list from key to bucket. \<^verbatim>\<open>safeGetItem\<close> and
  \<^verbatim>\<open>safeSetItem\<close> of \<^verbatim>\<open>utils/storageUtils.ts\<close> validate the key and swallow a failed
  call: \<open>readFails\<close> and \<open>writeFails\<close> say for which keys the platform call fails
  (\<open>clearFails\<close> is for the removal of keys during a restore).
\<close>

type_synonym logStorage = "(string \<times> LogEntry list) list"

record io =
  readFails :: "string \<Rightarrow> bool"
  writeFails :: "string \<Rightarrow> bool"
  clearFails :: bool

text \<open>\<^verbatim>\<open>validateKey(key, fallback)\<close>: an empty key is replaced by the fallback, when one
  is given and is not empty. (\<^verbatim>\<open>safeGetItem\<close> hands its second argument on as that
  fallback key.)\<close>

definition validateKey :: "string \<Rightarrow> string option \<Rightarrow> string option" where
  "validateKey key fallback =
     (if key = [] then (if truthy fallback then fallback else None) else Some key)"

definition safeGetItem ::
  "io \<Rightarrow> logStorage \<Rightarrow> string \<Rightarrow> string option \<Rightarrow> LogEntry list option" where
  "safeGetItem env st key fallback =
     (case validateKey key fallback of
        None \<Rightarrow> None
      | Some validKey \<Rightarrow> if readFails env validKey then None else map_of st validKey)"

definition safeSetItem :: "io \<Rightarrow> logStorage \<Rightarrow> string \<Rightarrow> LogEntry list \<Rightarrow> logStorage" where
  "safeSetItem env st key v =
     (case validateKey key None of
        None \<Rightarrow> st
      | Some validKey \<Rightarrow>
          if writeFails env validKey then st else AList.update validKey v st)"

definition getDeviceLogsKey :: "string \<Rightarrow> string" where
  "getDeviceLogsKey deviceId = ''app_logs_'' @ deviceId"

definition SYSTEM_LOGS_KEY :: string where
  "SYSTEM_LOGS_KEY = ''systemLogs''"

text \<open>
  \<^verbatim>\<open>LogManager.addLog\<close>: with a device id the entry goes to the front of the device's
  bucket, cut to 200; in every case it goes to the front of the system bucket, cut to
  100. The id and the timestamp of the entry are arguments.
\<close>

definition addLog ::
  "io \<Rightarrow> logStorage \<Rightarrow> string \<Rightarrow> string \<Rightarrow> string \<Rightarrow> string \<Rightarrow> bool \<Rightarrow> string option
     \<Rightarrow> category \<Rightarrow> LogEntry \<times> logStorage" where
  "addLog env st newId now act det succ deviceId cat =
     (let newLog = \<lparr>l_id = newId, timestamp = now, action = act, details = det,
                    success = succ, l_deviceId = deviceId, category = cat\<rparr>;
          st1 = (if truthy deviceId
                 then
                   let deviceLogsKey = getDeviceLogsKey (the deviceId);
                       logs = (case safeGetItem env st deviceLogsKey (Some ''[]'') of
                                 None \<Rightarrow> [] | Some l \<Rightarrow> l);
                       updatedLogs = newLog # take 199 logs
                   in safeSetItem env st deviceLogsKey updatedLogs
                 else st);
          systemLogs = (case safeGetItem env st1 SYSTEM_LOGS_KEY (Some ''[]'') of
                          None \<Rightarrow> [] | Some l \<Rightarrow> l);
          updatedSystemLogs = newLog # take 99 systemLogs
      in (newLog, safeSetItem env st1 SYSTEM_LOGS_KEY updatedSystemLogs))"

text \<open>
  \<^verbatim>\<open>LogManager.logSMSOperation\<close>. \<open>describeCommand\<close> is the chain of tests that
  chooses action, details and category; the entry is then added with \<open>addLog\<close>.
\<close>

definition describeCommand :: "string \<Rightarrow> string \<times> string \<times> category" where
  "describeCommand command =
     (if includes_str command ''CC'' then
        (''Gate Open'', ''Opened gate/activated relay (ON)'', Relay)
      else if includes_str command ''DD'' then
        (''Gate Close'', ''Closed gate/deactivated relay (OFF)'', Relay)
      else if includes_str command ''P'' then
        (''Password Change'', ''Changed device password'', Settings)
      else if includes_str command ''EE'' then
        (''Status Check'', ''Requested device status'', System)
      else if includes_str command ''TEL'' then
        (''Admin Registration'', ''Registered admin phone number'', Settings)
      else if includes_str command ''A'' \<and> \<not> includes_str command ''ALL''
              \<and> \<not> includes_str command ''AUT'' then
        (''User Management'',
         (if includes_str command ''##'' then
            ''Removed authorized user from position '' @
              (case firstMatch removeUserRe command of None \<Rightarrow> [] | Some serial \<Rightarrow> serial)
          else
            (case firstMatch addUserRe command of
               Some (serial, phone) \<Rightarrow> ''Added user '' @ phone @ '' at position '' @ serial
             | None \<Rightarrow> sanitizeLogDetails command)),
         UserCategory)
      else if includes_str command ''AUT'' then
        (''Access Control'', ''Set to authorized users only'', Settings)
      else if includes_str command ''ALL'' then
        (''Access Control'', ''Set to allow all callers'', Settings)
      else if includes_str command ''GOT'' then
        (''Relay Timing'',
         (let seconds = firstMatch latchRe command
          in if seconds = Some ''000'' then ''Set relay to momentary mode (pulse)''
             else if seconds = Some ''999'' then
               ''Set relay to toggle mode (stays ON until next call)''
             else ''Set relay to close for '' @
                    showNat (parseInt (case seconds of None \<Rightarrow> ''0'' | Some x \<Rightarrow> x)) @
                    '' seconds''),
         Settings)
      else (''GSM Command'', sanitizeLogDetails command, System))"

definition logSMSOperation ::
  "io \<Rightarrow> logStorage \<Rightarrow> string \<Rightarrow> string \<Rightarrow> string option \<Rightarrow> string \<Rightarrow> bool
     \<Rightarrow> LogEntry \<times> logStorage" where
  "logSMSOperation env st newId now deviceId command succ =
     (case describeCommand command of
        (act, det, cat) \<Rightarrow> addLog env st newId now act det succ deviceId cat)"

section \<open>Commands composed by the screens\<close>

text \<open>\<^verbatim>\<open>addNewUser\<close> of \<^verbatim>\<open>app/step3.tsx\<close>: the command it composes for a new user, once
  its checks of the form have passed; the time limits are appended when both are
  non-empty.\<close>

definition addNewUser_command :: "string \<Rightarrow> string \<Rightarrow> string \<Rightarrow> string \<Rightarrow> string \<Rightarrow> string" where
  "addNewUser_command pwd newUserSerial newUserPhone newUserStartTime newUserEndTime =
     (let command = pwd @ ''A'' @ newUserSerial @ ''#'' @ newUserPhone @ ''#''
      in if newUserStartTime \<noteq> [] \<and> newUserEndTime \<noteq> []
         then command @ newUserStartTime @ ''#'' @ newUserEndTime @ ''#''
         else command)"

text \<open>\<^verbatim>\<open>deleteUserById\<close> of the user list screen: the command it composes to remove
  the user at a serial position.\<close>

definition deleteUserById_command :: "string \<Rightarrow> string \<Rightarrow> string" where
  "deleteUserById_command pwd serial = pwd @ ''A'' @ serial @ ''##''"

section \<open>Backup and restore, \<^verbatim>\<open>utils/backupRestore.ts\<close>\<close>

subsection \<open>JSON values\<close>

text \<open>
  What \<^verbatim>\<open>JSON.parse\<close> returns. Numbers are integers here. \<open>JAppData\<close> is an object
  that conforms to the interface \<^verbatim>\<open>AppData\<close>, kept at its type: such an object is always
  written \<open>JAppData\<close>. \<open>JObj\<close> is any other object, with members of distinct names; where
  the restore looks for a document, a \<open>JObj\<close> is an object without \<^verbatim>\<open>devices\<close>.
\<close>

datatype json =
    JNull
  | JBool bool
  | JNum int
  | JStr string
  | JArr "json list"
  | JObj "(string \<times> json) list"
  | JAppData AppData

fun jtruthy :: "json \<Rightarrow> bool" where
  "jtruthy JNull = False"
| "jtruthy (JBool b) = b"
| "jtruthy (JNum n) = (n \<noteq> 0)"
| "jtruthy (JStr s) = (s \<noteq> [])"
| "jtruthy (JArr xs) = True"
| "jtruthy (JObj fs) = True"
| "jtruthy (JAppData d) = True"

text \<open>\<^verbatim>\<open>typeof v === 'object'\<close> and \<^verbatim>\<open>Array.isArray(v)\<close>.\<close>

fun isObjectType :: "json \<Rightarrow> bool" where
  "isObjectType JNull = True"
| "isObjectType (JArr xs) = True"
| "isObjectType (JObj fs) = True"
| "isObjectType (JAppData d) = True"
| "isObjectType v = False"

fun isArray :: "json \<Rightarrow> bool" where
  "isArray (JArr xs) = True"
| "isArray v = False"

text \<open>The members of a typed document, as the JSON text has them; an optional field
  that is undefined has no member.\<close>

fun optMember :: "string \<Rightarrow> string option \<Rightarrow> (string \<times> json) list" where
  "optMember k None = []"
| "optMember k (Some v) = [(k, JStr v)]"

fun categoryJson :: "category \<Rightarrow> json" where
  "categoryJson Relay = JStr ''relay''"
| "categoryJson Settings = JStr ''settings''"
| "categoryJson UserCategory = JStr ''user''"
| "categoryJson System = JStr ''system''"

definition logEntryJson :: "LogEntry \<Rightarrow> json" where
  "logEntryJson e =
     JObj ([(''id'', JStr (l_id e)), (''timestamp'', JStr (timestamp e)),
            (''action'', JStr (action e)), (''details'', JStr (details e)),
            (''success'', JBool (success e))]
           @ optMember ''deviceId'' (l_deviceId e)
           @ [(''category'', categoryJson (category e))])"

definition logsJson :: "(string \<times> LogEntry list) list \<Rightarrow> json" where
  "logsJson lg = JObj (map (\<lambda>(k, es). (k, JArr (map logEntryJson es))) lg)"

definition relaySettingsJson :: "RelaySettings \<Rightarrow> json" where
  "relaySettingsJson r =
     JObj [(''accessControl'', JStr (case accessControl r of AccessAUT \<Rightarrow> ''AUT'' | AccessALL \<Rightarrow> ''ALL'')),
           (''latchTime'', JStr (latchTime r))]"

definition deviceJson :: "Device \<Rightarrow> json" where
  "deviceJson d =
     JObj ([(''id'', JStr (d_id d)), (''name'', JStr (d_name d)),
            (''unitNumber'', JStr (unitNumber d)), (''password'', JStr (password d)),
            (''authorizedUsers'', JArr (map JStr (authorizedUsers d))),
            (''createdAt'', JStr (createdAt d)), (''updatedAt'', JStr (updatedAt d))]
           @ (case relaySettings d of None \<Rightarrow> []
              | Some r \<Rightarrow> [(''relaySettings'', relaySettingsJson r)]))"

definition userJson :: "User \<Rightarrow> json" where
  "userJson u =
     JObj ([(''id'', JStr (u_id u)), (''name'', JStr (u_name u)),
            (''phoneNumber'', JStr (phoneNumber u)), (''serialNumber'', JStr (serialNumber u))]
           @ optMember ''startTime'' (startTime u) @ optMember ''endTime'' (endTime u))"

definition globalSettingsJson :: "GlobalSettings \<Rightarrow> json" where
  "globalSettingsJson g =
     JObj [(''adminNumber'', JStr (adminNumber g)),
           (''activeDeviceId'', (case activeDeviceId g of None \<Rightarrow> JNull | Some i \<Rightarrow> JStr i)),
           (''completedSteps'', JArr (map JStr (completedSteps g)))]"

definition appDataEntries :: "AppData \<Rightarrow> (string \<times> json) list" where
  "appDataEntries d =
     [(''devices'', JArr (map deviceJson (devices d))),
      (''users'', JArr (map userJson (users d))),
      (''logs'', logsJson (logs d)),
      (''globalSettings'', globalSettingsJson (globalSettings d))]"

text \<open>Reading a member, \<^verbatim>\<open>v.name\<close>: \<open>None\<close> is \<^verbatim>\<open>undefined\<close>. (The source reads members
  of values it has tested to be truthy, so never of \<^verbatim>\<open>null\<close>.)\<close>

fun member :: "json \<Rightarrow> string \<Rightarrow> json option" where
  "member (JObj fs) k = map_of fs k"
| "member (JAppData d) k = map_of (appDataEntries d) k"
| "member v k = None"

text \<open>\<^verbatim>\<open>Object.entries(v)\<close>; it raises on \<^verbatim>\<open>null\<close>. An array or a string has its
  indices as keys.\<close>

fun indexed :: "nat \<Rightarrow> 'a list \<Rightarrow> (string \<times> 'a) list" where
  "indexed i [] = []"
| "indexed i (x # xs) = (showNat i, x) # indexed (Suc i) xs"

fun objectEntries :: "json \<Rightarrow> (string \<times> json) list option" where
  "objectEntries JNull = None"
| "objectEntries (JObj fs) = Some fs"
| "objectEntries (JAppData d) = Some (appDataEntries d)"
| "objectEntries (JArr xs) = Some (indexed 0 xs)"
| "objectEntries (JStr s) = Some (indexed 0 (map (\<lambda>c. JStr [c]) s))"
| "objectEntries v = Some []"

text \<open>
  The platform: \<^verbatim>\<open>JSON.parse\<close> (\<open>None\<close> when it raises), \<^verbatim>\<open>JSON.stringify\<close>, and the
  successive matches of \<^verbatim>\<open>keyValueRegex\<close> on a text, each as the pair of its two groups.
\<close>

record platform =
  jparse :: "string \<Rightarrow> json option"
  stringify :: "json \<Rightarrow> string"
  keyValueMatches :: "string \<Rightarrow> (string \<times> string) list"

subsection \<open>The key-value store\<close>

text \<open>\<^verbatim>\<open>AsyncStorage\<close>: the items, and the keys of the \<^verbatim>\<open>setItem\<close> calls that have
  succeeded, in order.\<close>

record asyncStorage =
  items :: "(string \<times> string) list"
  written :: "string list"

definition setItem :: "io \<Rightarrow> asyncStorage \<Rightarrow> string \<Rightarrow> string \<Rightarrow> asyncStorage option" where
  "setItem env st key v =
     (if writeFails env key then None
      else Some (st\<lparr>items := AList.update key v (items st), written := written st @ [key]\<rparr>))"

subsection \<open>Cleaning the text\<close>

definition dquote :: char where
  "dquote = CHR 0x22"

definition newline :: char where
  "newline = CHR 0x0A"

fun indexOf :: "string \<Rightarrow> string \<Rightarrow> nat option" where
  "indexOf [] sub = (if sub = [] then Some 0 else None)"
| "indexOf (c # cs) sub =
     (if startsWith (c # cs) sub then Some 0 else map_option Suc (indexOf cs sub))"

fun lastIndexOf :: "string \<Rightarrow> string \<Rightarrow> nat option" where
  "lastIndexOf [] sub = (if sub = [] then Some 0 else None)"
| "lastIndexOf (c # cs) sub =
     (case lastIndexOf cs sub of
        Some j \<Rightarrow> Some (Suc j)
      | None \<Rightarrow> if startsWith (c # cs) sub then Some 0 else None)"

text \<open>The smallest of the positions found, \<open>None\<close> for -1.\<close>

definition jsonStart :: "string \<Rightarrow> nat option" where
  "jsonStart processedContent =
     (let jsonStartOptions =
            [indexOf processedContent [CHR ''{'', dquote],
             indexOf processedContent [CHR ''{'', newline, dquote],
             indexOf processedContent [CHR ''{'', CHR '' '', dquote],
             lastIndexOf processedContent [CHR ''{'', dquote]]
      in case concat (map (\<lambda>p. case p of None \<Rightarrow> [] | Some i \<Rightarrow> [i]) jsonStartOptions) of
           [] \<Rightarrow> None
         | i # rest \<Rightarrow> Some (fold min rest i))"

text \<open>The loop over the characters: \<open>i\<close> is the index, and the result is
  \<^verbatim>\<open>lastValidPos\<close>.\<close>

fun braceScan :: "nat \<Rightarrow> int \<Rightarrow> nat \<Rightarrow> string \<Rightarrow> nat" where
  "braceScan i braceCount lastValidPos [] = lastValidPos"
| "braceScan i braceCount lastValidPos (c # cs) =
     (let b1 = (if c = CHR ''{'' then braceCount + 1 else braceCount);
          b2 = (if c = CHR ''}'' then b1 - 1 else b1);
          l' = (if c = CHR ''}'' \<and> b2 = 0 then i + 1 else lastValidPos)
      in braceScan (i + 1) b2 l' cs)"

definition cleanContent :: "string \<Rightarrow> string" where
  "cleanContent backupJson =
     (let p0 = trim backupJson;
          p1 = (case jsonStart p0 of
                  None \<Rightarrow> p0
                | Some js \<Rightarrow> if js > 0 then drop js p0 else p0);
          lastValidPos = braceScan 0 0 0 p1
      in if lastValidPos > 0 \<and> lastValidPos < length p1 then take lastValidPos p1 else p1)"

subsection \<open>Parsing in three tiers\<close>

text \<open>\<^verbatim>\<open>replace(/,\s*X/g, 'X')\<close> for a closing bracket \<open>X\<close>: a comma, any white space and
  the bracket become the bracket.\<close>

function stripTrailingComma :: "char \<Rightarrow> string \<Rightarrow> string" where
  "stripTrailingComma x [] = []"
| "stripTrailingComma x (c # cs) =
     (if c = CHR '','' \<and> startsWith (dropWhile isSpace cs) [x]
      then x # stripTrailingComma x (drop 1 (dropWhile isSpace cs))
      else c # stripTrailingComma x cs)"
  by pat_completeness auto
termination
proof (relation "measure (\<lambda>(x, s). length s)")
  fix x :: char and c :: char and cs :: string
  have "length (dropWhile isSpace cs) \<le> length cs"
    by (rule length_dropWhile_le)
  then show "((x, drop 1 (dropWhile isSpace cs)), (x, c # cs)) \<in> measure (\<lambda>(x, s). length s)"
    by simp
qed auto

definition repairJson :: "string \<Rightarrow> string" where
  "repairJson processedContent =
     stripTrailingComma (CHR '']'') (stripTrailingComma (CHR ''}'') processedContent)"

text \<open>
  The last tier assigns \<^verbatim>\<open>extractedData[key] = JSON.parse(value)\<close> for each match. For
  the name \<^verbatim>\<open>__proto__\<close>, unless it is an own property or a data property found on the
  way up the chain, the assignment runs the setter of \<^verbatim>\<open>Object.prototype\<close>: an object or
  \<^verbatim>\<open>null\<close> becomes the prototype of \<^verbatim>\<open>extractedData\<close> and no own property is made; any
  other value is ignored.
\<close>

datatype prototype = DefaultProto | NoProto | ProtoValue json

definition assignExtracted ::
  "string \<Rightarrow> json \<Rightarrow> (string \<times> json) list \<times> prototype \<Rightarrow> (string \<times> json) list \<times> prototype" where
  "assignExtracted key v = (\<lambda>(own, p).
     if key \<noteq> ''__proto__'' \<or> key \<in> fst ` set own then (setProp key v own, p)
     else
       (case p of
          NoProto \<Rightarrow> (own @ [(key, v)], p)
        | ProtoValue q \<Rightarrow>
            if member q ''__proto__'' \<noteq> None then (own @ [(key, v)], p)
            else if isObjectType v then (own, if v = JNull then NoProto else ProtoValue v)
            else (own, p)
        | DefaultProto \<Rightarrow>
            if isObjectType v then (own, if v = JNull then NoProto else ProtoValue v)
            else (own, p)))"

text \<open>What a read finds beyond the own properties: the members of the prototype that
  was assigned, if any. (The names read are not names of \<^verbatim>\<open>Object.prototype\<close>.)\<close>

fun inheritedOf :: "prototype \<Rightarrow> json" where
  "inheritedOf (ProtoValue q) = q"
| "inheritedOf p = JNull"

text \<open>Strict parse, then the repaired text, then the pairs found by the regular
  expression, each value parsed on its own and skipped when that fails. The result is
  the parsed value and the object it inherits from (\<open>JNull\<close> for none). \<open>None\<close> is the
  error \<^verbatim>\<open>Could not parse backup file\<close>.\<close>

definition parseContent :: "platform \<Rightarrow> string \<Rightarrow> (json \<times> json) option" where
  "parseContent pf processedContent =
     (case jparse pf processedContent of
        Some v \<Rightarrow> Some (v, JNull)
      | None \<Rightarrow>
          (case jparse pf (repairJson processedContent) of
             Some v \<Rightarrow> Some (v, JNull)
           | None \<Rightarrow>
               let (extractedData, p) =
                     fold (\<lambda>(key, value) acc.
                             case jparse pf value of
                               Some v \<Rightarrow> assignExtracted key v acc
                             | None \<Rightarrow> acc)
                          (keyValueMatches pf processedContent) ([], DefaultProto)
               in if extractedData \<noteq> [] then Some (JObj extractedData, inheritedOf p)
                  else None))"

text \<open>Reading \<^verbatim>\<open>obj[key]\<close> on the parsed object: an own member, or else a member of the
  object it inherits from.\<close>

definition lookupData :: "(string \<times> json) list \<Rightarrow> json \<Rightarrow> string \<Rightarrow> json option" where
  "lookupData own inherited key =
     (case map_of own key of Some v \<Rightarrow> Some v | None \<Rightarrow> member inherited key)"

text \<open>The shape of the payload: an envelope with an object under \<^verbatim>\<open>data\<close>, an object,
  or an array. The result is the payload and the object it inherits from. \<open>None\<close> is
  the error \<^verbatim>\<open>Unsupported backup format\<close>.\<close>

definition chooseData :: "json \<Rightarrow> json \<Rightarrow> (json \<times> json) option" where
  "chooseData parsedData inherited =
     (let dataMember = (case member parsedData ''data'' of
                          Some d \<Rightarrow> Some d
                        | None \<Rightarrow> member inherited ''data'')
      in if jtruthy parsedData
            \<and> (case dataMember of Some d \<Rightarrow> jtruthy d \<and> isObjectType d | None \<Rightarrow> False)
         then map_option (\<lambda>d. (d, JNull)) dataMember
         else if isObjectType parsedData \<and> \<not> isArray parsedData then Some (parsedData, inherited)
         else if isArray parsedData then Some (JObj [(''gsm_devices'', parsedData)], JNull)
         else None)"

subsection \<open>Merging with the document already stored\<close>

text \<open>
  The merge of \<^verbatim>\<open>restoreFromBackup\<close>, on documents of type \<^verbatim>\<open>AppData\<close> (their arrays
  and objects are truthy, so the tests on \<^verbatim>\<open>devices\<close> and \<^verbatim>\<open>logs\<close> pass). The set of
  existing device ids is taken once, before the loop. The devices of the backup whose
  id is not in it are pushed after the existing devices. Then, for each bucket of the
  existing document in turn: a device without a bucket in the backup gets the existing
  bucket; for a device with one, the entries of the backup whose id the existing bucket
  does not have come first, then the existing bucket. When \<^verbatim>\<open>backupAppData.logs[deviceId]\<close>
  is an inherited value, \<^verbatim>\<open>filter\<close> is not a function of it: the error is caught, the
  buckets merged so far stay and the remaining ones are not visited. The flag says
  whether the loop came to its end. Users and settings are the backup's.
\<close>

fun mergeLogs ::
  "(string \<times> LogEntry list) list \<Rightarrow> (string \<times> LogEntry list) list
     \<Rightarrow> (string \<times> LogEntry list) list \<times> bool" where
  "mergeLogs [] backupLogs = (backupLogs, True)"
| "mergeLogs ((deviceId, logEntries) # rest) backupLogs =
     (case getProp backupLogs deviceId of
        Undefined \<Rightarrow> mergeLogs rest (setProp deviceId logEntries backupLogs)
      | Own backupEntries \<Rightarrow>
          let existingLogIds = set (map l_id logEntries);
              newLogs = filter (\<lambda>entry. l_id entry \<notin> existingLogIds) backupEntries
          in mergeLogs rest (setProp deviceId (newLogs @ logEntries) backupLogs)
      | Inherited \<Rightarrow> (backupLogs, False))"

definition mergeAppData :: "AppData \<Rightarrow> AppData \<Rightarrow> AppData \<times> bool" where
  "mergeAppData existingAppData backupAppData =
     (let existingDeviceIds = set (map d_id (devices existingAppData));
          mergedDevices =
            devices existingAppData
            @ filter (\<lambda>backupDevice. d_id backupDevice \<notin> existingDeviceIds)
                (devices backupAppData);
          (mergedLogs, completed) = mergeLogs (logs existingAppData) (logs backupAppData)
      in (backupAppData\<lparr>devices := mergedDevices, logs := mergedLogs\<rparr>, completed))"

subsection \<open>The restore\<close>

datatype restoreError =
    EmptyBackup
  | CouldNotParse
  | UnsupportedFormat
  | EntriesOfNull
  | NothingRestored

text \<open>The document under \<^verbatim>\<open>app_data\<close> before the restore: \<open>None\<close> when there is
  none, when it is the empty text, or when reading or parsing it fails.\<close>

definition readExisting :: "platform \<Rightarrow> io \<Rightarrow> asyncStorage \<Rightarrow> json option" where
  "readExisting pf env st =
     (if readFails env ''app_data'' then None
      else case map_of (items st) ''app_data'' of
             None \<Rightarrow> None
           | Some appDataString \<Rightarrow>
               if appDataString = [] then None else jparse pf appDataString)"

text \<open>\<^verbatim>\<open>dataToStore['app_data'] && existingAppData\<close>.\<close>

definition mergeWanted :: "json option \<Rightarrow> json option \<Rightarrow> bool" where
  "mergeWanted backupValue existingAppData =
     ((case backupValue of Some v \<Rightarrow> jtruthy v | None \<Rightarrow> False)
      \<and> (case existingAppData of Some e \<Rightarrow> jtruthy e | None \<Rightarrow> False))"

text \<open>
  The payload after the merge. Two documents of type \<^verbatim>\<open>AppData\<close> are merged; with any
  other value on either side the test on \<^verbatim>\<open>devices\<close> fails and the payload stays as it
  is. The merge changes the backup's document in place. \<open>mergeInPlace\<close> is the payload
  as its own members show it after that, and \<open>mergePayload\<close> is the payload after the
  closing assignment \<^verbatim>\<open>dataToStore['app_data'] = backupAppData\<close>, which is reached only
  when the loop over the buckets came to its end, and which makes an own member of a
  document that was inherited.
\<close>

definition mergeInPlace ::
  "json option \<Rightarrow> (string \<times> json) list \<Rightarrow> json \<Rightarrow> (string \<times> json) list" where
  "mergeInPlace existingAppData dataToStore inherited =
     (case (lookupData dataToStore inherited ''app_data'', existingAppData) of
        (Some (JAppData backupAppData), Some (JAppData existing)) \<Rightarrow>
          (if ''app_data'' \<in> fst ` set dataToStore
           then AList.update ''app_data''
                  (JAppData (fst (mergeAppData existing backupAppData))) dataToStore
           else dataToStore)
      | _ \<Rightarrow> dataToStore)"

definition mergePayload ::
  "json option \<Rightarrow> (string \<times> json) list \<Rightarrow> json \<Rightarrow> (string \<times> json) list" where
  "mergePayload existingAppData dataToStore inherited =
     (case (lookupData dataToStore inherited ''app_data'', existingAppData) of
        (Some (JAppData backupAppData), Some (JAppData existing)) \<Rightarrow>
          (case mergeAppData existing backupAppData of
             (merged, completed) \<Rightarrow>
               if completed
               then setProp ''app_data'' (JAppData merged)
                      (mergeInPlace existingAppData dataToStore inherited)
               else mergeInPlace existingAppData dataToStore inherited)
      | _ \<Rightarrow> dataToStore)"

text \<open>
  The cache of log values, made from the own members of the payload before the merge.
  For \<^verbatim>\<open>app_data\<close> the cached value is the \<^verbatim>\<open>logs\<close> object of the document itself, which
  the merge changes in place: the cache is therefore read off \<open>mergeInPlace\<close>.
\<close>

definition cacheLogs :: "(string \<times> json) list \<Rightarrow> (string \<times> json) list" where
  "cacheLogs dataToStore =
     fold (\<lambda>(key, value) cachedLogs.
             if includes_str key ''logs'' \<or> key = ''app_data'' then
               (if key = ''app_data'' \<and> jtruthy value \<and> isObjectType value
                   \<and> (case member value ''logs'' of Some l \<Rightarrow> jtruthy l | None \<Rightarrow> False)
                then setProp ''app_logs'' (the (member value ''logs'')) cachedLogs
                else setProp key value cachedLogs)
             else cachedLogs)
          dataToStore []"

text \<open>Removing every key, except \<^verbatim>\<open>app_data\<close> when a merge was wanted; a failure is
  swallowed.\<close>

definition clearExisting :: "io \<Rightarrow> bool \<Rightarrow> asyncStorage \<Rightarrow> asyncStorage" where
  "clearExisting env keepAppData st =
     (if clearFails env then st
      else st\<lparr>items := filter (\<lambda>(key, v). key = ''app_data'' \<and> keepAppData) (items st)\<rparr>)"

definition valueToStore :: "platform \<Rightarrow> json \<Rightarrow> string" where
  "valueToStore pf v = (case v of JStr s \<Rightarrow> s | _ \<Rightarrow> stringify pf v)"

text \<open>The first loop: a \<^verbatim>\<open>null\<close> is skipped, a failed write is logged and the loop
  goes on, a successful one is counted.\<close>

fun saveItems ::
  "platform \<Rightarrow> io \<Rightarrow> (string \<times> json) list \<Rightarrow> asyncStorage \<Rightarrow> nat \<Rightarrow> asyncStorage \<times> nat" where
  "saveItems pf env [] st successCount = (st, successCount)"
| "saveItems pf env ((key, v) # rest) st successCount =
     (if v = JNull then saveItems pf env rest st successCount
      else case setItem env st key (valueToStore pf v) of
             None \<Rightarrow> saveItems pf env rest st successCount
           | Some st' \<Rightarrow> saveItems pf env rest st' (successCount + 1))"

text \<open>The second loop, over the cache: a key whose payload value is truthy is
  skipped; a failed write ends the loop. \<open>present\<close> is the test
  \<^verbatim>\<open>dataToStore[logKey]\<close>.\<close>

fun restoreCachedLogs ::
  "platform \<Rightarrow> io \<Rightarrow> (string \<Rightarrow> bool) \<Rightarrow> (string \<times> json) list \<Rightarrow> asyncStorage \<Rightarrow> nat
     \<Rightarrow> asyncStorage \<times> nat" where
  "restoreCachedLogs pf env present [] st successCount = (st, successCount)"
| "restoreCachedLogs pf env present ((logKey, logValue) # rest) st successCount =
     (if present logKey
      then restoreCachedLogs pf env present rest st successCount
      else case setItem env st logKey (valueToStore pf logValue) of
             None \<Rightarrow> (st, successCount)
           | Some st' \<Rightarrow> restoreCachedLogs pf env present rest st' (successCount + 1))"

text \<open>From the payload to the result: merge, clear, write, count.\<close>

definition storeData ::
  "platform \<Rightarrow> io \<Rightarrow> asyncStorage \<Rightarrow> (string \<times> json) list \<Rightarrow> json
     \<Rightarrow> (restoreError + bool) \<times> asyncStorage" where
  "storeData pf env st dataToStore0 inherited =
     (let existingAppData = readExisting pf env st;
          wanted = mergeWanted (lookupData dataToStore0 inherited ''app_data'') existingAppData;
          cachedLogs = cacheLogs (if wanted
                                  then mergeInPlace existingAppData dataToStore0 inherited
                                  else dataToStore0);
          dataToStore = (if wanted then mergePayload existingAppData dataToStore0 inherited
                         else dataToStore0);
          st1 = clearExisting env wanted st;
          (st2, n2) = saveItems pf env dataToStore st1 0;
          present = (\<lambda>logKey. case lookupData dataToStore inherited logKey of
                                 Some v \<Rightarrow> jtruthy v | None \<Rightarrow> False);
          (st3, successCount) = restoreCachedLogs pf env present cachedLogs st2 n2
      in if successCount = 0 then (Inl NothingRestored, st3) else (Inr True, st3))"

text \<open>
  \<^verbatim>\<open>restoreFromBackup\<close>. An error is the exception raised to the caller; the storage is
  returned as the call leaves it. After a success the in-memory store is
  reinitialised, and a failure of that is swallowed: the result is already decided.
\<close>

definition restoreFromBackup ::
  "platform \<Rightarrow> io \<Rightarrow> asyncStorage \<Rightarrow> string \<Rightarrow> (restoreError + bool) \<times> asyncStorage" where
  "restoreFromBackup pf env st backupJson =
     (if backupJson = [] then (Inl EmptyBackup, st)
      else case parseContent pf (cleanContent backupJson) of
             None \<Rightarrow> (Inl CouldNotParse, st)
           | Some (parsedData, proto) \<Rightarrow>
               (case chooseData parsedData proto of
                  None \<Rightarrow> (Inl UnsupportedFormat, st)
                | Some (d, inherited) \<Rightarrow>
                    (case objectEntries d of
                       None \<Rightarrow> (Inl EntriesOfNull, st)
                     | Some dataToStore \<Rightarrow> storeData pf env st dataToStore inherited)))"

section \<open>Example values\<close>

definition deviceNamed :: "string \<Rightarrow> string \<Rightarrow> Device" where
  "deviceNamed i n =
     \<lparr>d_id = i, d_name = n, unitNumber = ''0400000000'', password = ''1234'',
      authorizedUsers = [], createdAt = ''2024-01-01'', updatedAt = ''2024-01-01'',
      relaySettings = None\<rparr>"

definition logEntryWithId :: "string \<Rightarrow> LogEntry" where
  "logEntryWithId i =
     \<lparr>l_id = i, timestamp = ''2024-01-01'', action = ''Gate Open'', details = ''opened'',
      success = True, l_deviceId = None, category = Relay\<rparr>"

definition reliable :: io where
  "reliable = \<lparr>readFails = (\<lambda>k. False), writeFails = (\<lambda>k. False), clearFails = False\<rparr>"

definition userNamed :: "string \<Rightarrow> string \<Rightarrow> User" where
  "userNamed i n =
     \<lparr>u_id = i, u_name = n, phoneNumber = ''+61412345678'', serialNumber = ''001'',
      startTime = None, endTime = None\<rparr>"

definition exampleData :: AppData where
  "exampleData =
     \<lparr>devices = [(deviceNamed ''d1'' ''Front gate'')\<lparr>authorizedUsers := [''u1'']\<rparr>,
                 (deviceNamed ''d2'' ''Back gate'')\<lparr>authorizedUsers := [''u1'', ''u2'']\<rparr>],
      users = [userNamed ''u1'' ''Ann'', userNamed ''u2'' ''Bob''],
      logs = [(''d1'', [logEntryWithId ''l1'']), (''d2'', [logEntryWithId ''l2''])],
      globalSettings = \<lparr>adminNumber = ''0061469123456'', activeDeviceId = Some ''d1'',
                        completedSteps = []\<rparr>\<rparr>"

definition exampleStore :: DataStore where
  "exampleStore = \<lparr>store = exampleData, isInitialized = True\<rparr>"

definition undefinedStore :: DataStore where
  "undefinedStore =
     \<lparr>store = initialState\<lparr>devices := [deviceNamed ''undefined'' ''Gate'']\<rparr>,
      isInitialized = True\<rparr>"

definition danglingStore :: DataStore where
  "danglingStore =
     \<lparr>store = initialState\<lparr>globalSettings :=
                \<lparr>adminNumber = [], activeDeviceId = Some ''gone'', completedSteps = []\<rparr>\<rparr>,
      isInitialized = True\<rparr>"

definition storeOf :: "AppData \<Rightarrow> DataStore" where
  "storeOf d = \<lparr>store = d, isInitialized = True\<rparr>"

text \<open>A destination with device \<open>a\<close>, and a backup with a renamed \<open>a\<close> and a new
  \<open>b\<close>; a platform that parses the text \<^verbatim>\<open>E\<close> to the destination's document and the
  text \<^verbatim>\<open>B\<close> to a backup with the document under \<^verbatim>\<open>app_data\<close>.\<close>

definition destinationData :: AppData where
  "destinationData =
     initialState\<lparr>devices := [deviceNamed ''a'' ''Front gate''],
                   logs := [(''a'', [logEntryWithId ''l1'', logEntryWithId ''l2''])]\<rparr>"

definition backupData :: AppData where
  "backupData =
     initialState\<lparr>devices := [deviceNamed ''a'' ''Renamed'', deviceNamed ''b'' ''Back gate''],
                   logs := [(''a'', [logEntryWithId ''l2'', logEntryWithId ''l3'']),
                            (''b'', [logEntryWithId ''l4''])]\<rparr>"

definition examplePlatform :: platform where
  "examplePlatform =
     \<lparr>jparse = (\<lambda>s. if s = ''E'' then Some (JAppData destinationData)
                     else if s = ''B'' then Some (JObj [(''app_data'', JAppData backupData)])
                     else if s = ''{}'' then Some (JObj [])
                     else None),
      stringify = (\<lambda>v. case v of JAppData d \<Rightarrow> ''document'' | _ \<Rightarrow> ''value''),
      keyValueMatches = (\<lambda>s. [])\<rparr>"

text \<open>A destination with a bucket under the name \<^verbatim>\<open>constructor\<close> before the bucket of
  \<open>a\<close>, and a backup with a bucket for \<open>a\<close> only.\<close>

definition constructorDestination :: AppData where
  "constructorDestination =
     initialState\<lparr>devices := [deviceNamed ''a'' ''Front gate''],
                   logs := [(''constructor'', [logEntryWithId ''l1'']),
                            (''a'', [logEntryWithId ''l2''])]\<rparr>"

definition constructorBackup :: AppData where
  "constructorBackup =
     initialState\<lparr>devices := [deviceNamed ''a'' ''Renamed''],
                   logs := [(''a'', [logEntryWithId ''l3''])]\<rparr>"

text \<open>A rendering of a document that shows its buckets, each as its name and the ids of
  its entries.\<close>

definition showBuckets :: "json \<Rightarrow> string" where
  "showBuckets v =
     (case v of
        JAppData d \<Rightarrow>
          concat (map (\<lambda>(k, es). k @ '':'' @ concat (map (\<lambda>e. '' '' @ l_id e) es) @ '';'') (logs d))
      | _ \<Rightarrow> ''value'')"

definition constructorPlatform :: platform where
  "constructorPlatform =
     \<lparr>jparse = (\<lambda>s. if s = ''E'' then Some (JAppData constructorDestination)
                     else if s = ''B'' then Some (JObj [(''app_data'', JAppData constructorBackup)])
                     else None),
      stringify = showBuckets,
      keyValueMatches = (\<lambda>s. [])\<rparr>"

definition exampleStorage :: asyncStorage where
  "exampleStorage = \<lparr>items = [(''app_data'', ''E''), (''unitNumber'', ''0400000000'')], written = []\<rparr>"

section \<open>Sequences of appends\<close>

text \<open>An append is given by the id, the timestamp, the action, the details, the success
  flag and the category of its entry. \<open>entryOf\<close> is the entry it makes,
  \<open>addDeviceLogs\<close> and \<open>addLogs\<close> are successive calls of \<^verbatim>\<open>addDeviceLog\<close> and of
  \<^verbatim>\<open>LogManager.addLog\<close> for one device (\<open>addDeviceLogs\<close> gives the result of every call
  and the store after the last one), and \<open>bucketOf\<close> reads a bucket of the log manager
  (no bucket is the empty one).\<close>

type_synonym append = "string \<times> string \<times> string \<times> string \<times> bool \<times> category"

definition entryOf :: "string option \<Rightarrow> append \<Rightarrow> LogEntry" where
  "entryOf dev = (\<lambda>(newId, now, act, det, succ, cat).
     \<lparr>l_id = newId, timestamp = now, action = act, details = det,
      success = succ, l_deviceId = dev, category = cat\<rparr>)"

fun addDeviceLogs ::
  "DataStore \<Rightarrow> string \<Rightarrow> append list \<Rightarrow> (jsError + LogEntry) list \<times> DataStore" where
  "addDeviceLogs s deviceId [] = ([], s)"
| "addDeviceLogs s deviceId ((newId, now, act, det, succ, cat) # rest) =
     (let (r, s1) = addDeviceLog s newId now deviceId act det succ cat;
          (rs, s2) = addDeviceLogs s1 deviceId rest
      in (r # rs, s2))"

fun addLogs :: "io \<Rightarrow> logStorage \<Rightarrow> string option \<Rightarrow> append list \<Rightarrow> logStorage" where
  "addLogs env st deviceId [] = st"
| "addLogs env st deviceId ((newId, now, act, det, succ, cat) # rest) =
     addLogs env (snd (addLog env st newId now act det succ deviceId cat)) deviceId rest"

definition bucketOf :: "logStorage \<Rightarrow> string \<Rightarrow> LogEntry list" where
  "bucketOf st key = (case map_of st key of None \<Rightarrow> [] | Some l \<Rightarrow> l)"

definition appendNumbered :: "nat \<Rightarrow> append" where
  "appendNumbered n =
     (replicate n (CHR ''x''), ''2024-01-01'', ''Gate Open'', ''opened'', True, Relay)"

section \<open>Helper lemmas\<close>

lemma startsWith_iff: "startsWith s p = (\<exists>bs. s = p @ bs)"
proof
  assume "startsWith s p"
  then have "s = p @ drop (length p) s"
    by (metis append_take_drop_id startsWith_def)
  then show "\<exists>bs. s = p @ bs" ..
next
  assume "\<exists>bs. s = p @ bs"
  then show "startsWith s p" by (auto simp: startsWith_def)
qed

lemma includes_str_iff: "includes_str s sub = (\<exists>as bs. s = as @ sub @ bs)"
proof (induction s)
  case Nil
  then show ?case by auto
next
  case (Cons c cs)
  show ?case
  proof
    assume "includes_str (c # cs) sub"
    then consider "startsWith (c # cs) sub" | "includes_str cs sub" by auto
    then show "\<exists>as bs. c # cs = as @ sub @ bs"
    proof cases
      case 1
      then obtain bs where "c # cs = sub @ bs" by (auto simp: startsWith_iff)
      then have "c # cs = [] @ sub @ bs" by simp
      then show ?thesis by blast
    next
      case 2
      then obtain as bs where "cs = as @ sub @ bs" using Cons.IH by auto
      then have "c # cs = (c # as) @ sub @ bs" by simp
      then show ?thesis by blast
    qed
  next
    assume "\<exists>as bs. c # cs = as @ sub @ bs"
    then obtain as bs where eq: "c # cs = as @ sub @ bs" by blast
    show "includes_str (c # cs) sub"
    proof (cases as)
      case Nil
      with eq have "startsWith (c # cs) sub" by (auto simp: startsWith_iff)
      then show ?thesis by simp
    next
      case (Cons a as')
      with eq have "cs = as' @ sub @ bs" by simp
      then have "includes_str cs sub" using Cons.IH by blast
      then show ?thesis by simp
    qed
  qed
qed

lemma digit_not_special:
  "isDigit c \<Longrightarrow> c \<noteq> CHR ''A'' \<and> c \<noteq> CHR ''C'' \<and> c \<noteq> CHR ''D'' \<and> c \<noteq> CHR ''P''
     \<and> c \<noteq> CHR ''E'' \<and> c \<noteq> CHR ''T'' \<and> c \<noteq> CHR ''#'' \<and> c \<noteq> CHR ''L''
     \<and> c \<noteq> CHR ''U''"
  by (auto simp: isDigit_def)

lemma length4: "length P = 4 \<Longrightarrow> \<exists>a b c d. P = [a, b, c, d]"
  by (auto simp: numeral_eq_Suc length_Suc_conv)

lemma length3: "length S = 3 \<Longrightarrow> \<exists>a b c. S = [a, b, c]"
  by (auto simp: numeral_eq_Suc length_Suc_conv)

lemma find_None_iff_mem: "(find P xs = None) = (\<forall>x\<in>set xs. \<not> P x)"
  by (induction xs) auto

lemma findIndex_None: "(findIndex P xs = None) = (\<forall>x\<in>set xs. \<not> P x)"
  by (induction xs) auto

lemma filter_id_length: "(length xs \<noteq> length (filter P xs)) = (\<exists>x\<in>set xs. \<not> P x)"
proof
  assume "length xs \<noteq> length (filter P xs)"
  then have "filter P xs \<noteq> xs" by auto
  then show "\<exists>x\<in>set xs. \<not> P x" by (auto simp: filter_id_conv)
next
  assume "\<exists>x\<in>set xs. \<not> P x"
  then obtain x where "x \<in> set xs" "\<not> P x" by blast
  then have "length (filter P xs) < length xs" by (rule length_filter_less)
  then show "length xs \<noteq> length (filter P xs)" by simp
qed

lemma map_of_delete_same: "map_of (AList.delete k al) k = None"
  by (simp add: delete_conv')

lemma map_of_delete_other: "k \<noteq> d \<Longrightarrow> map_of (AList.delete d al) k = map_of al k"
  by (simp add: delete_conv')

lemma filter_absent: "d \<notin> d_id ` set ds \<Longrightarrow> filter (\<lambda>x. d_id x \<noteq> d) ds = ds"
  by (induction ds) auto

lemma filter_shorter:
  "d \<in> d_id ` set ds \<Longrightarrow> length ds \<noteq> length (filter (\<lambda>x. d_id x \<noteq> d) ds)"
  by (auto simp: filter_id_length)

section \<open>Plain objects\<close>

lemma map_of_insertIndex:
  "k \<notin> fst ` set obj \<Longrightarrow> map_of (insertIndex n (k, v) obj) = (map_of obj)(k \<mapsto> v)"
proof (induction obj)
  case Nil
  then show ?case by simp
next
  case (Cons e obj)
  obtain k' v' where e: "e = (k', v')" by (cases e)
  with Cons.prems have ne: "k' \<noteq> k" and rest: "k \<notin> fst ` set obj" by auto
  show ?case
    using Cons.IH[OF rest] ne by (auto simp: e fun_upd_twist)
qed

lemma keys_insertIndex: "fst ` set (insertIndex n e obj) = insert (fst e) (fst ` set obj)"
proof (induction obj)
  case Nil
  then show ?case by simp
next
  case (Cons x obj)
  obtain k v where x: "x = (k, v)" by (cases x)
  show ?case
  proof (cases "isArrayIndex k \<and> parseInt k < n")
    case True
    then have "insertIndex n e (x # obj) = (k, v) # insertIndex n e obj" by (simp add: x)
    then show ?thesis using Cons.IH by (auto simp: x)
  next
    case False
    then have "insertIndex n e (x # obj) = e # (k, v) # obj" by (auto simp: x)
    then show ?thesis by (auto simp: x)
  qed
qed

lemma map_of_append_new:
  "k \<notin> fst ` set obj \<Longrightarrow> map_of (obj @ [(k, v)]) = (map_of obj)(k \<mapsto> v)"
proof
  fix x
  assume "k \<notin> fst ` set obj"
  then have "map_of obj k = None" by (simp add: map_of_eq_None_iff)
  then show "map_of (obj @ [(k, v)]) x = ((map_of obj)(k \<mapsto> v)) x"
    by (cases "map_of obj x") (auto simp: map_add_def)
qed

lemma map_of_setProp: "map_of (setProp k v obj) = (map_of obj)(k \<mapsto> v)"
proof (cases "k \<in> fst ` set obj")
  case True
  then show ?thesis by (simp add: setProp_def update_conv')
next
  case False
  show ?thesis
  proof (cases "isArrayIndex k")
    case True
    with False show ?thesis by (simp add: setProp_def map_of_insertIndex)
  next
    case idx: False
    have "setProp k v obj = obj @ [(k, v)]" using False idx by (simp add: setProp_def)
    then show ?thesis using map_of_append_new[OF False] by simp
  qed
qed

lemma keys_setProp: "fst ` set (setProp k v obj) = insert k (fst ` set obj)"
proof (cases "k \<in> fst ` set obj")
  case True
  then have "fst ` set (AList.update k v obj) = fst ` set obj"
    by (induction obj) auto
  with True show ?thesis by (auto simp: setProp_def)
next
  case False
  then show ?thesis by (auto simp: setProp_def keys_insertIndex)
qed

lemma setProp_same_keys:
  "k \<in> fst ` set obj \<Longrightarrow> map fst (setProp k v obj) = map fst obj"
proof -
  assume "k \<in> fst ` set obj"
  then have "map fst (AList.update k v obj) = map fst obj"
    by (induction obj) auto
  with \<open>k \<in> fst ` set obj\<close> show ?thesis by (simp add: setProp_def)
qed

lemma getProp_setProp_same: "getProp (setProp k v obj) k = Own v"
  by (simp add: getProp_def map_of_setProp)

lemma getProp_setProp_other: "k' \<noteq> k \<Longrightarrow> getProp (setProp k v obj) k' = getProp obj k'"
  by (simp add: getProp_def map_of_setProp)

lemma getProp_Own: "(getProp obj k = Own v) = (map_of obj k = Some v)"
  by (auto simp: getProp_def split: option.splits)

lemma getProp_Inherited:
  "(getProp obj k = Inherited) = (map_of obj k = None \<and> k \<in> set objectPrototypeNames)"
  by (auto simp: getProp_def split: option.splits)

lemma getProp_Undefined:
  "(getProp obj k = Undefined) = (map_of obj k = None \<and> k \<notin> set objectPrototypeNames)"
  by (auto simp: getProp_def split: option.splits)

section \<open>The admin number\<close>

text \<open>
  C1. The normalisation should leave a number that already starts with \<^verbatim>\<open>00\<close> as it
  is. In \<^verbatim>\<open>registerAdminNumber\<close> of the setup step screen the first test removes a
  leading zero also from such a number, and the second test then puts \<^verbatim>\<open>00\<close> in
  front of what is left: \<^verbatim>\<open>0061469123456\<close> becomes \<^verbatim>\<open>00061469123456\<close>, and that is the
  number in the command sent. The same step in \<^verbatim>\<open>app/setup.tsx\<close> leaves it unchanged.
  The other two examples come out as stated.
\<close>

theorem registerAdminNumber_double_zero:
  "formattedAdminNumber ''0061469123456'' = ''00061469123456''
   \<and> registerAdminNumber ''0400000000'' ''1234'' ''0061469123456''
       = Some ''1234TEL00061469123456#''
   \<and> formattedAdminNumber_setup ''0061469123456'' = ''0061469123456''
   \<and> formattedAdminNumber ''0469123456'' = ''00469123456''
   \<and> formattedAdminNumber ''61469123456'' = ''0061469123456''"
  by (simp add: registerAdminNumber_def formattedAdminNumber_def formattedAdminNumber_setup_def
      isDigit_def startsWith_def)

section \<open>Describing commands\<close>

lemma describe_add_example:
  "describeCommand ''1234A007#+61412345678#'' =
     (''User Management'', ''Added user +61412345678 at position 007'', UserCategory)"
  by code_simp

lemma includes_add_example:
  "includes_str ''Added user +61412345678 at position 007''
     ''Added user +61412345678 at position 007''"
  by code_simp

text \<open>
  C3. With password \<^verbatim>\<open>1234\<close>, serial \<^verbatim>\<open>007\<close>, phone \<^verbatim>\<open>+61412345678\<close> and no time limits
  the add-user command is exactly \<^verbatim>\<open>1234A007#+61412345678#\<close>, and the log entry made
  from that command has the action \<^verbatim>\<open>User Management\<close> and details that contain
  \<^verbatim>\<open>Added user +61412345678 at position 007\<close>.
\<close>

theorem add_user_end_to_end:
  "addNewUser_command ''1234'' ''007'' ''+61412345678'' [] [] = ''1234A007#+61412345678#''
   \<and> action (fst (logSMSOperation env st newId now deviceId ''1234A007#+61412345678#'' succ))
       = ''User Management''
   \<and> includes_str
        (details (fst (logSMSOperation env st newId now deviceId ''1234A007#+61412345678#'' succ)))
        ''Added user +61412345678 at position 007''"
proof -
  have enc: "addNewUser_command ''1234'' ''007'' ''+61412345678'' [] [] = ''1234A007#+61412345678#''"
    by (simp add: addNewUser_command_def)
  have entry: "fst (logSMSOperation env st newId now deviceId ''1234A007#+61412345678#'' succ) =
    \<lparr>l_id = newId, timestamp = now, action = ''User Management'',
     details = ''Added user +61412345678 at position 007'', success = succ,
     l_deviceId = deviceId, category = UserCategory\<rparr>"
    unfolding logSMSOperation_def describe_add_example
    by (simp add: addLog_def Let_def)
  show ?thesis
    unfolding entry using enc includes_add_example by simp
qed

lemma describe_remove:
  assumes P: "length P = 4" "\<forall>c\<in>set P. isDigit c"
      and S: "length S = 3" "\<forall>c\<in>set S. isDigit c"
  shows "describeCommand (deleteUserById_command P S) =
          (''User Management'', ''Removed authorized user from position '' @ S, UserCategory)"
proof -
  from P(1) obtain p1 p2 p3 p4 where Pe: "P = [p1, p2, p3, p4]" using length4 by blast
  from S(1) obtain s1 s2 s3 where Se: "S = [s1, s2, s3]" using length3 by blast
  have d: "isDigit p1" "isDigit p2" "isDigit p3" "isDigit p4" "isDigit s1" "isDigit s2" "isDigit s3"
    using P(2) S(2) by (simp_all add: Pe Se)
  note n = d[THEN digit_not_special]
  show ?thesis
    using d n
    by (simp add: describeCommand_def deleteUserById_command_def Pe Se startsWith_def
        removeUserRe_def)
qed

lemma no_digit_in_prefix: "\<forall>c\<in>set ''Removed authorized user from position ''. \<not> isDigit c"
  by (simp add: isDigit_def)

lemma password_not_in_details:
  assumes P: "length P = 4" "\<forall>c\<in>set P. isDigit c" and S: "length S = 3"
  shows "\<not> includes_str (''Removed authorized user from position '' @ S) P"
proof
  let ?pre = "''Removed authorized user from position ''"
  assume "includes_str (?pre @ S) P"
  then obtain as bs where eq: "?pre @ S = as @ P @ bs"
    by (auto simp: includes_str_iff)
  then have "length (?pre @ S) = length (as @ P @ bs)" by simp
  then have len: "length as < length ?pre" using P(1) S by simp
  have "(?pre @ S) ! length as = ?pre ! length as"
    using len by (simp only: nth_append if_True)
  moreover have "(as @ P @ bs) ! length as = P ! 0"
    using P(1) by (simp add: nth_append)
  ultimately have "P ! 0 = ?pre ! length as" using eq by simp
  moreover have "?pre ! length as \<in> set ?pre" using len by (rule nth_mem)
  moreover have "P ! 0 \<in> set P" using P(1) by (simp add: nth_mem)
  ultimately show False using P(2) no_digit_in_prefix by metis
qed

lemma serial_in_details: "includes_str (pre @ S) S"
proof -
  have "pre @ S = pre @ S @ []" by simp
  then show ?thesis unfolding includes_str_iff by blast
qed

text \<open>
  C4. For every password \<open>P\<close> of four digits and every serial \<open>S\<close> of three digits, the
  log entry made from the remove-user command \<open>P @ ''A'' @ S @ ''##''\<close> has the category
  \<^verbatim>\<open>user\<close> and the action \<^verbatim>\<open>User Management\<close>; its details contain \<open>S\<close> and do not
  contain \<open>P\<close>.
\<close>

theorem remove_user_described:
  assumes "length P = 4" and "\<forall>c\<in>set P. isDigit c"
      and "length S = 3" and "\<forall>c\<in>set S. isDigit c"
  shows "deleteUserById_command P S = P @ ''A'' @ S @ ''##''
     \<and> category (fst (logSMSOperation env st newId now deviceId (deleteUserById_command P S) succ))
         = UserCategory
     \<and> action (fst (logSMSOperation env st newId now deviceId (deleteUserById_command P S) succ))
         = ''User Management''
     \<and> includes_str
         (details (fst (logSMSOperation env st newId now deviceId (deleteUserById_command P S) succ)))
         S
     \<and> \<not> includes_str
         (details (fst (logSMSOperation env st newId now deviceId (deleteUserById_command P S) succ)))
         P"
proof -
  have entry: "fst (logSMSOperation env st newId now deviceId (deleteUserById_command P S) succ) =
    \<lparr>l_id = newId, timestamp = now, action = ''User Management'',
     details = ''Removed authorized user from position '' @ S, success = succ,
     l_deviceId = deviceId, category = UserCategory\<rparr>"
    unfolding logSMSOperation_def describe_remove[OF assms]
    by (simp add: addLog_def Let_def)
  let ?e = "fst (logSMSOperation env st newId now deviceId (deleteUserById_command P S) succ)"
  have cmd: "deleteUserById_command P S = P @ ''A'' @ S @ ''##''"
    by (simp add: deleteUserById_command_def)
  have c: "category ?e = UserCategory" and a: "action ?e = ''User Management''"
    by (simp_all add: entry)
  have d: "details ?e = ''Removed authorized user from position '' @ S"
    by (simp add: entry)
  have has_serial: "includes_str (details ?e) S"
    unfolding d by (rule serial_in_details)
  have no_password: "\<not> includes_str (details ?e) P"
    unfolding d by (rule password_not_in_details[OF assms(1,2,3)])
  from cmd c a has_serial no_password show ?thesis by blast
qed

theorem remove_user_described_witness:
  "length ''1234'' = 4 \<and> list_all isDigit ''1234''
   \<and> length ''007'' = 3 \<and> list_all isDigit ''007''
   \<and> category (fst (logSMSOperation reliable [] ''log_1'' ''2024-01-01'' (Some ''dev'')
                      (deleteUserById_command ''1234'' ''007'') True)) = UserCategory
   \<and> action (fst (logSMSOperation reliable [] ''log_1'' ''2024-01-01'' (Some ''dev'')
                      (deleteUserById_command ''1234'' ''007'') True)) = ''User Management''
   \<and> includes_str
        (details (fst (logSMSOperation reliable [] ''log_1'' ''2024-01-01'' (Some ''dev'')
                      (deleteUserById_command ''1234'' ''007'') True))) ''007''
   \<and> \<not> includes_str
        (details (fst (logSMSOperation reliable [] ''log_1'' ''2024-01-01'' (Some ''dev'')
                      (deleteUserById_command ''1234'' ''007'') True))) ''1234''"
proof -
  have h: "length ''1234'' = 4" "\<forall>c\<in>set ''1234''. isDigit c"
    "length ''007'' = 3" "\<forall>c\<in>set ''007''. isDigit c"
    by (simp_all add: isDigit_def)
  have l: "list_all isDigit ''1234''" "list_all isDigit ''007''"
    by (simp_all add: isDigit_def)
  show ?thesis
    using h l remove_user_described[OF h, of reliable "[]" "''log_1''" "''2024-01-01''"
        "Some ''dev''" True]
    by blast
qed

section \<open>The store\<close>

text \<open>
  C7. For the empty string and for the text \<^verbatim>\<open>undefined\<close>, on every store,
  \<^verbatim>\<open>deleteDevice\<close> returns false and leaves the store as it is. For every other device
  id \<open>d\<close> it works on the initialised store \<open>st\<close> and: returns true exactly when \<open>st\<close>
  has a device with id \<open>d\<close>; leaves the devices with another id, in order, and none
  with id \<open>d\<close>; removes the bucket of \<open>d\<close> and leaves the other buckets; leaves the
  user list unchanged; leaves the settings unchanged when \<open>d\<close> was not the active
  device, and otherwise makes the first remaining device active, or none when no device
  remains; and leaves the document unchanged when no device has the id \<open>d\<close>.
\<close>

theorem deleteDevice_removes:
  fixes load s d
  defines "st \<equiv> store (initialize load s)"
  defines "r \<equiv> deleteDevice load s d"
  defines "st' \<equiv> store (snd r)"
  shows "(d = [] \<or> d = ''undefined'' \<longrightarrow> r = (False, s))
    \<and> (d \<noteq> [] \<and> d \<noteq> ''undefined'' \<longrightarrow>
         fst r = (d \<in> d_id ` set (devices st))
       \<and> devices st' = filter (\<lambda>x. d_id x \<noteq> d) (devices st)
       \<and> d \<notin> d_id ` set (devices st')
       \<and> (d \<in> d_id ` set (devices st) \<longrightarrow> map_of (logs st') d = None)
       \<and> (\<forall>k. k \<noteq> d \<longrightarrow> map_of (logs st') k = map_of (logs st) k)
       \<and> users st' = users st
       \<and> (activeDeviceId (globalSettings st) \<noteq> Some d \<longrightarrow>
            globalSettings st' = globalSettings st)
       \<and> (d \<in> d_id ` set (devices st) \<and> activeDeviceId (globalSettings st) = Some d \<longrightarrow>
            activeDeviceId (globalSettings st') =
              (case devices st' of [] \<Rightarrow> None | x # _ \<Rightarrow> Some (d_id x)))
       \<and> (d \<notin> d_id ` set (devices st) \<longrightarrow> st' = st))"
proof (rule conjI; rule impI)
  assume "d = [] \<or> d = ''undefined''"
  then show "r = (False, s)" by (auto simp: r_def deleteDevice_def)
next
  assume ok: "d \<noteq> [] \<and> d \<noteq> ''undefined''"
  show "fst r = (d \<in> d_id ` set (devices st))
       \<and> devices st' = filter (\<lambda>x. d_id x \<noteq> d) (devices st)
       \<and> d \<notin> d_id ` set (devices st')
       \<and> (d \<in> d_id ` set (devices st) \<longrightarrow> map_of (logs st') d = None)
       \<and> (\<forall>k. k \<noteq> d \<longrightarrow> map_of (logs st') k = map_of (logs st) k)
       \<and> users st' = users st
       \<and> (activeDeviceId (globalSettings st) \<noteq> Some d \<longrightarrow>
            globalSettings st' = globalSettings st)
       \<and> (d \<in> d_id ` set (devices st) \<and> activeDeviceId (globalSettings st) = Some d \<longrightarrow>
            activeDeviceId (globalSettings st') =
              (case devices st' of [] \<Rightarrow> None | x # _ \<Rightarrow> Some (d_id x)))
       \<and> (d \<notin> d_id ` set (devices st) \<longrightarrow> st' = st)"
  proof (cases "find (\<lambda>x. d_id x = d) (devices st)")
    case None
    then have absent: "d \<notin> d_id ` set (devices st)"
      by (auto simp: find_None_iff_mem)
    have "r = (False, initialize load s)"
      using None ok by (simp add: r_def deleteDevice_def st_def Let_def)
    then show ?thesis
      using absent by (simp add: st'_def st_def filter_absent)
  next
    case (Some dev)
    then have present: "d \<in> d_id ` set (devices st)"
      by (metis (mono_tags, lifting) find_None_iff_mem image_iff option.distinct(1))
    show ?thesis
      using Some ok present
      by (auto simp: r_def st'_def deleteDevice_def st_def[symmetric] Let_def filter_shorter
          map_of_delete_same map_of_delete_other getProp_def
          split: option.splits list.splits propRead.splits if_splits)
  qed
qed

theorem deleteDevice_removes_witness:
  "deleteDevice id exampleStore [] = (False, exampleStore)
   \<and> deleteDevice id undefinedStore ''undefined'' = (False, undefinedStore)
   \<and> fst (deleteDevice id exampleStore ''d1'') = True
   \<and> map d_id (devices (store (snd (deleteDevice id exampleStore ''d1'')))) = [''d2'']
   \<and> map_of (logs (store (snd (deleteDevice id exampleStore ''d1'')))) ''d1'' = None
   \<and> users (store (snd (deleteDevice id exampleStore ''d1''))) = users exampleData
   \<and> activeDeviceId (globalSettings (store (snd (deleteDevice id exampleStore ''d1''))))
       = Some ''d2''"
  using deleteDevice_removes[of "[]" id exampleStore]
    deleteDevice_removes[of "''undefined''" id undefinedStore]
    deleteDevice_removes[of "''d1''" id exampleStore]
  by (simp add: initialize_def exampleStore_def exampleData_def deviceNamed_def)

theorem deleteDevice_undefined_counterexample:
  "d_id (deviceNamed ''undefined'' ''Gate'') = ''undefined''
   \<and> devices (store undefinedStore) = [deviceNamed ''undefined'' ''Gate'']
   \<and> deleteDevice id undefinedStore ''undefined'' = (False, undefinedStore)"
  by (simp add: deleteDevice_def undefinedStore_def deviceNamed_def)

text \<open>
  C8. For every store and every user id \<open>u\<close>, after \<^verbatim>\<open>deleteUser(u)\<close> no device has
  \<open>u\<close> in its \<^verbatim>\<open>authorizedUsers\<close>: every device keeps its other ids, in order. The user
  with id \<open>u\<close> is gone from the user list, and the result says whether there was one.
\<close>

theorem deleteUser_scrubs:
  "(\<forall>d \<in> set (devices (store (snd (deleteUser s u)))). u \<notin> set (authorizedUsers d))
   \<and> devices (store (snd (deleteUser s u))) =
       map (\<lambda>d. d\<lparr>authorizedUsers := filter (\<lambda>i. i \<noteq> u) (authorizedUsers d)\<rparr>)
         (devices (store s))
   \<and> u \<notin> u_id ` set (users (store (snd (deleteUser s u))))
   \<and> fst (deleteUser s u) = (u \<in> u_id ` set (users (store s)))"
  by (auto simp: deleteUser_def Let_def filter_id_length)

theorem deleteUser_scrubs_witness:
  "map authorizedUsers (devices (store exampleStore)) = [[''u1''], [''u1'', ''u2'']]
   \<and> map authorizedUsers (devices (store (snd (deleteUser exampleStore ''u1'')))) = [[], [''u2'']]
   \<and> fst (deleteUser exampleStore ''u1'') = True"
  using deleteUser_scrubs[of exampleStore "''u1''"]
  by (simp add: exampleStore_def exampleData_def deviceNamed_def userNamed_def)

text \<open>
  C9. For every store and every device id that the store resolves to a device (the
  first one with that id), with \<open>dev\<close> that device: authorising a user id that \<open>dev\<close>
  has, or deauthorising one that it has not, returns false and leaves the store
  unchanged; authorising an id that it has not returns true and appends the id to the
  list of \<open>dev\<close>; deauthorising an id that it has returns true and removes the id from
  the list of \<open>dev\<close>. Nothing else changes.
\<close>

theorem authorization_idempotent:
  fixes s deviceId u i
  assumes found: "findIndex (\<lambda>x. d_id x = deviceId) (devices (store s)) = Some i"
  defines "dev \<equiv> devices (store s) ! i"
  shows "(u \<in> set (authorizedUsers dev) \<longrightarrow> authorizeUserForDevice s deviceId u = (False, s))
    \<and> (u \<notin> set (authorizedUsers dev) \<longrightarrow> deauthorizeUserForDevice s deviceId u = (False, s))
    \<and> (u \<notin> set (authorizedUsers dev) \<longrightarrow>
          authorizeUserForDevice s deviceId u =
            (True, s\<lparr>store := (store s)\<lparr>devices := (devices (store s))
                       [i := dev\<lparr>authorizedUsers := authorizedUsers dev @ [u]\<rparr>]\<rparr>\<rparr>))
    \<and> (u \<in> set (authorizedUsers dev) \<longrightarrow>
          deauthorizeUserForDevice s deviceId u =
            (True, s\<lparr>store := (store s)\<lparr>devices := (devices (store s))
                       [i := dev\<lparr>authorizedUsers :=
                                    filter (\<lambda>x. x \<noteq> u) (authorizedUsers dev)\<rparr>]\<rparr>\<rparr>)
          \<and> u \<notin> set (filter (\<lambda>x. x \<noteq> u) (authorizedUsers dev)))"
proof -
  have unchanged: "filter (\<lambda>x. x \<noteq> u) (authorizedUsers dev) = authorizedUsers dev"
    if "u \<notin> set (authorizedUsers dev)"
    using that by (auto simp: filter_id_conv)
  have same: "(devices (store s))[i := dev] = devices (store s)"
    by (simp add: dev_def)
  show ?thesis
    using found
    by (auto simp: authorizeUserForDevice_def deauthorizeUserForDevice_def Let_def
        dev_def[symmetric] unchanged same filter_id_length)
qed

theorem authorization_idempotent_witness:
  "findIndex (\<lambda>x. d_id x = ''d1'') (devices (store exampleStore)) = Some 0
   \<and> authorizedUsers (devices (store exampleStore) ! 0) = [''u1'']
   \<and> authorizeUserForDevice exampleStore ''d1'' ''u1'' = (False, exampleStore)
   \<and> deauthorizeUserForDevice exampleStore ''d1'' ''u2'' = (False, exampleStore)
   \<and> fst (authorizeUserForDevice exampleStore ''d1'' ''u2'') = True
   \<and> authorizedUsers (devices (store (snd (authorizeUserForDevice exampleStore ''d1'' ''u2''))) ! 0)
       = [''u1'', ''u2'']
   \<and> fst (deauthorizeUserForDevice exampleStore ''d1'' ''u1'') = True
   \<and> authorizedUsers (devices (store (snd (deauthorizeUserForDevice exampleStore ''d1'' ''u1''))) ! 0)
       = []"
proof -
  have h: "findIndex (\<lambda>x. d_id x = ''d1'') (devices (store exampleStore)) = Some 0"
    by (simp add: exampleStore_def exampleData_def deviceNamed_def)
  have a: "authorizedUsers (devices (store exampleStore) ! 0) = [''u1'']"
    by (simp add: exampleStore_def exampleData_def deviceNamed_def)
  show ?thesis
    using h authorization_idempotent[OF h, of "''u1''"] authorization_idempotent[OF h, of "''u2''"]
    by (simp add: a) (simp add: exampleStore_def exampleData_def)
qed

text \<open>
  C10. \<^verbatim>\<open>setActiveDevice(id)\<close> returns false and leaves the store unchanged whenever
  \<open>id\<close> is a non-empty string that is the id of no device; it returns true after
  setting \<^verbatim>\<open>activeDeviceId\<close> to \<open>id\<close> whenever \<open>id\<close> is \<^verbatim>\<open>null\<close>, the empty string, or the
  id of a device. Consequently, after a call with an id other than the empty string
  that returns true, \<^verbatim>\<open>activeDeviceId\<close> is \<^verbatim>\<open>null\<close> or the id of a device in the store;
  a call that returns false leaves the value that was there.
\<close>

theorem setActiveDevice_validates:
  "(deviceId \<noteq> None \<and> deviceId \<noteq> Some [] \<and> deviceId \<notin> Some ` d_id ` set (devices (store s))
      \<longrightarrow> setActiveDevice s deviceId = (False, s))
   \<and> (deviceId = None \<or> deviceId = Some [] \<or> deviceId \<in> Some ` d_id ` set (devices (store s))
      \<longrightarrow> setActiveDevice s deviceId =
            (True, s\<lparr>store := (store s)\<lparr>globalSettings :=
                       (globalSettings (store s))\<lparr>activeDeviceId := deviceId\<rparr>\<rparr>\<rparr>))
   \<and> (fst (setActiveDevice s deviceId) \<and> deviceId \<noteq> Some []
      \<longrightarrow> activeDeviceId (globalSettings (store (snd (setActiveDevice s deviceId))))
            \<in> insert None (Some ` d_id ` set (devices (store (snd (setActiveDevice s deviceId))))))
   \<and> (\<not> fst (setActiveDevice s deviceId)
      \<longrightarrow> snd (setActiveDevice s deviceId) = s)"
proof (cases deviceId)
  case None
  then show ?thesis by (simp add: setActiveDevice_def Let_def)
next
  case (Some i)
  then show ?thesis by (auto simp: setActiveDevice_def Let_def image_iff)
qed

theorem setActiveDevice_validates_witness:
  "setActiveDevice exampleStore (Some ''nope'') = (False, exampleStore)
   \<and> fst (setActiveDevice exampleStore (Some ''d2'')) = True
   \<and> activeDeviceId (globalSettings (store (snd (setActiveDevice exampleStore (Some ''d2'')))))
       = Some ''d2''
   \<and> fst (setActiveDevice exampleStore None) = True
   \<and> activeDeviceId (globalSettings (store (snd (setActiveDevice exampleStore None)))) = None"
  using setActiveDevice_validates[of "Some ''nope''" exampleStore]
    setActiveDevice_validates[of "Some ''d2''" exampleStore]
    setActiveDevice_validates[of None exampleStore]
  by (simp add: exampleStore_def exampleData_def deviceNamed_def)

theorem setActiveDevice_counterexample:
  "devices (store (storeOf initialState)) = []
   \<and> setActiveDevice (storeOf initialState) (Some [])
       = (True, storeOf (initialState\<lparr>globalSettings :=
                 \<lparr>adminNumber = [], activeDeviceId = Some [], completedSteps = []\<rparr>\<rparr>))
   \<and> activeDeviceId (globalSettings (store danglingStore)) = Some ''gone''
   \<and> devices (store danglingStore) = []
   \<and> setActiveDevice danglingStore (Some ''d1'') = (False, danglingStore)"
  by (simp add: setActiveDevice_def storeOf_def initialState_def danglingStore_def)


section \<open>Restoring a backup\<close>

lemma mergeLogs_lookup:
  "distinct (map fst el) \<Longrightarrow>
   map_of (fst (mergeLogs el bl)) k =
     (case map_of (takeWhile (\<lambda>e. getProp bl (fst e) \<noteq> Inherited) el) k of
        None \<Rightarrow> map_of bl k
      | Some es \<Rightarrow>
          (case map_of bl k of
             None \<Rightarrow> Some es
           | Some bs \<Rightarrow> Some (filter (\<lambda>x. l_id x \<notin> l_id ` set es) bs @ es)))"
proof (induction el arbitrary: bl)
  case Nil
  then show ?case by simp
next
  case (Cons e el)
  obtain k0 es0 where e: "e = (k0, es0)" by (cases e)
  from Cons.prems e have dist: "distinct (map fst el)" and fresh: "k0 \<notin> fst ` set el"
    by auto
  show ?case
  proof (cases "getProp bl k0 = Inherited")
    case True
    then show ?thesis by (simp add: e)
  next
    case False
    define v where "v =
      (case map_of bl k0 of
         None \<Rightarrow> es0
       | Some bs \<Rightarrow> filter (\<lambda>x. l_id x \<notin> l_id ` set es0) bs @ es0)"
    define bl1 where "bl1 = setProp k0 v bl"
    have step: "mergeLogs (e # el) bl = mergeLogs el bl1"
      using False
      by (auto simp: e bl1_def v_def Let_def getProp_def split: option.splits if_splits)
    have same: "getProp bl1 (fst x) = getProp bl (fst x)" if "x \<in> set el" for x
    proof -
      from that fresh have "fst x \<noteq> k0" by auto
      then show ?thesis by (simp add: bl1_def getProp_setProp_other)
    qed
    have tw: "takeWhile (\<lambda>e. getProp bl1 (fst e) \<noteq> Inherited) el
            = takeWhile (\<lambda>e. getProp bl (fst e) \<noteq> Inherited) el"
      by (rule takeWhile_cong) (simp_all add: same)
    let ?pre = "takeWhile (\<lambda>e. getProp bl (fst e) \<noteq> Inherited) el"
    have pre_fresh: "map_of ?pre k0 = None"
    proof -
      have "set ?pre \<subseteq> set el" by (auto dest: set_takeWhileD)
      with fresh have "k0 \<notin> fst ` set ?pre" by auto
      then show ?thesis by (simp add: map_of_eq_None_iff)
    qed
    have IH: "map_of (fst (mergeLogs el bl1)) k =
       (case map_of ?pre k of
          None \<Rightarrow> map_of bl1 k
        | Some es \<Rightarrow>
            (case map_of bl1 k of
               None \<Rightarrow> Some es
             | Some bs \<Rightarrow> Some (filter (\<lambda>x. l_id x \<notin> l_id ` set es) bs @ es)))"
      using Cons.IH[OF dist, of bl1] unfolding tw .
    have head: "takeWhile (\<lambda>e. getProp bl (fst e) \<noteq> Inherited) (e # el) = (k0, es0) # ?pre"
      using False by (simp add: e)
    show ?thesis
    proof (cases "k = k0")
      case True
      then show ?thesis
        unfolding step IH head using pre_fresh
        by (simp add: bl1_def v_def map_of_setProp split: option.splits)
    next
      case ne: False
      then have "map_of bl1 k = map_of bl k"
        by (simp add: bl1_def map_of_setProp)
      then show ?thesis
        unfolding step IH head using ne by (simp split: option.splits)
    qed
  qed
qed

lemma mergeLogs_completed:
  "snd (mergeLogs el bl) \<Longrightarrow> distinct (map fst el) \<Longrightarrow>
     takeWhile (\<lambda>e. getProp bl (fst e) \<noteq> Inherited) el = el"
proof (induction el arbitrary: bl)
  case Nil
  then show ?case by simp
next
  case (Cons e el)
  obtain k0 es0 where e: "e = (k0, es0)" by (cases e)
  from Cons.prems e have dist: "distinct (map fst el)" and fresh: "k0 \<notin> fst ` set el"
    by auto
  show ?case
  proof (cases "getProp bl k0 = Inherited")
    case True
    with Cons.prems(1) show ?thesis by (simp add: e)
  next
    case False
    define v where "v =
      (case map_of bl k0 of
         None \<Rightarrow> es0
       | Some bs \<Rightarrow> filter (\<lambda>x. l_id x \<notin> l_id ` set es0) bs @ es0)"
    define bl1 where "bl1 = setProp k0 v bl"
    have step: "mergeLogs (e # el) bl = mergeLogs el bl1"
      using False
      by (auto simp: e bl1_def v_def Let_def getProp_def split: option.splits if_splits)
    have same: "getProp bl1 (fst x) = getProp bl (fst x)" if "x \<in> set el" for x
    proof -
      from that fresh have "fst x \<noteq> k0" by auto
      then show ?thesis by (simp add: bl1_def getProp_setProp_other)
    qed
    have tw: "takeWhile (\<lambda>e. getProp bl1 (fst e) \<noteq> Inherited) el
            = takeWhile (\<lambda>e. getProp bl (fst e) \<noteq> Inherited) el"
      by (rule takeWhile_cong) (simp_all add: same)
    from Cons.prems(1) have "snd (mergeLogs el bl1)" by (simp add: step)
    from Cons.IH[OF this dist] tw False show ?thesis by (simp add: e)
  qed
qed

lemma saveItems_other:
  "k \<notin> fst ` set xs \<Longrightarrow>
     map_of (items (fst (saveItems pf env xs st n))) k = map_of (items st) k"
proof (induction xs arbitrary: st n)
  case Nil
  then show ?case by simp
next
  case (Cons x xs)
  obtain key v where x: "x = (key, v)" by (cases x)
  with Cons.prems have ne: "key \<noteq> k" and rest: "k \<notin> fst ` set xs" by auto
  show ?case
    using Cons.IH[OF rest] ne
    by (simp add: x setItem_def update_conv')
qed

lemma saveItems_writes:
  "distinct (map fst xs) \<Longrightarrow> map_of xs k = Some v \<Longrightarrow> v \<noteq> JNull \<Longrightarrow> \<not> writeFails env k \<Longrightarrow>
     map_of (items (fst (saveItems pf env xs st n))) k = Some (valueToStore pf v)"
proof (induction xs arbitrary: st n)
  case Nil
  then show ?case by simp
next
  case (Cons x xs)
  obtain key w where x: "x = (key, w)" by (cases x)
  show ?case
  proof (cases "key = k")
    case True
    with Cons.prems x have w: "w = v" and fresh: "k \<notin> fst ` set xs" by auto
    show ?thesis
      using Cons.prems(3,4) saveItems_other[OF fresh]
      by (simp add: x True w setItem_def update_conv')
  next
    case False
    with Cons.prems x have "distinct (map fst xs)" "map_of xs k = Some v" by auto
    from Cons.IH[OF this Cons.prems(3,4)] show ?thesis
      by (simp add: x setItem_def)
  qed
qed

lemma restoreCachedLogs_keeps:
  "present k \<Longrightarrow>
     map_of (items (fst (restoreCachedLogs pf env present xs st n))) k = map_of (items st) k"
proof (induction xs arbitrary: st n)
  case Nil
  then show ?case by simp
next
  case (Cons x xs)
  obtain key v where x: "x = (key, v)" by (cases x)
  show ?case
  proof (cases "present key")
    case True
    then show ?thesis using Cons.IH[OF Cons.prems] by (simp add: x)
  next
    case False
    with Cons.prems have "key \<noteq> k" by auto
    then show ?thesis
      using Cons.IH[OF Cons.prems] False
      by (simp add: x setItem_def update_conv')
  qed
qed

lemma setItem_Some:
  "setItem env st k v = Some st' \<Longrightarrow>
     written st' = written st @ [k] \<and> items st' = AList.update k v (items st) \<and> \<not> writeFails env k"
  by (auto simp: setItem_def split: if_splits)

lemma update_keys_mono: "fst ` set al \<subseteq> fst ` set (AList.update k v al)"
  by (induction al) auto

lemma update_key_in: "k \<in> fst ` set (AList.update k v al)"
  by (induction al) auto

lemma saveItems_written:
  "saveItems pf env xs st n = (st', n') \<Longrightarrow>
     \<exists>ks. written st' = written st @ ks \<and> n' = n + length ks
          \<and> fst ` set (items st) \<union> set ks \<subseteq> fst ` set (items st')"
proof (induction xs arbitrary: st n)
  case Nil
  then show ?case by auto
next
  case (Cons x xs)
  obtain key v where x: "x = (key, v)" by (cases x)
  show ?case
  proof (cases "v = JNull \<or> writeFails env key")
    case True
    then have "saveItems pf env xs st n = (st', n')"
      using Cons.prems x by (auto simp: setItem_def split: if_splits)
    then show ?thesis by (rule Cons.IH)
  next
    case False
    then obtain st1 where st1: "setItem env st key (valueToStore pf v) = Some st1"
      by (auto simp: setItem_def)
    then have rest: "saveItems pf env xs st1 (n + 1) = (st', n')"
      using Cons.prems x False by simp
    from Cons.IH[OF rest] obtain ks where ks: "written st' = written st1 @ ks"
      "n' = n + 1 + length ks" "fst ` set (items st1) \<union> set ks \<subseteq> fst ` set (items st')"
      by auto
    from setItem_Some[OF st1] have w: "written st1 = written st @ [key]"
      and i: "items st1 = AList.update key (valueToStore pf v) (items st)" by auto
    have "written st' = written st @ (key # ks)" using ks(1) w by simp
    moreover have "n' = n + length (key # ks)" using ks(2) by simp
    moreover have "fst ` set (items st) \<union> set (key # ks) \<subseteq> fst ` set (items st')"
      using ks(3) i update_keys_mono[of "items st" key "valueToStore pf v"]
        update_key_in[of key "valueToStore pf v" "items st"] by auto
    ultimately show ?thesis by blast
  qed
qed

lemma restoreCachedLogs_written:
  "restoreCachedLogs pf env present xs st n = (st', n') \<Longrightarrow>
     \<exists>ks. written st' = written st @ ks \<and> n' = n + length ks
          \<and> fst ` set (items st) \<union> set ks \<subseteq> fst ` set (items st')"
proof (induction xs arbitrary: st n)
  case Nil
  then show ?case by auto
next
  case (Cons x xs)
  obtain key v where x: "x = (key, v)" by (cases x)
  show ?case
  proof (cases "present key")
    case True
    then have "restoreCachedLogs pf env present xs st n = (st', n')"
      using Cons.prems x by simp
    then show ?thesis by (rule Cons.IH)
  next
    case skip: False
    show ?thesis
    proof (cases "writeFails env key")
      case True
      then have "st' = st" "n' = n"
        using Cons.prems x skip by (auto simp: setItem_def)
      then show ?thesis by auto
    next
      case False
      then obtain st1 where st1: "setItem env st key (valueToStore pf v) = Some st1"
        by (auto simp: setItem_def)
      then have rest: "restoreCachedLogs pf env present xs st1 (n + 1) = (st', n')"
        using Cons.prems x skip by simp
      from Cons.IH[OF rest] obtain ks where ks: "written st' = written st1 @ ks"
        "n' = n + 1 + length ks" "fst ` set (items st1) \<union> set ks \<subseteq> fst ` set (items st')"
        by auto
      from setItem_Some[OF st1] have w: "written st1 = written st @ [key]"
        and i: "items st1 = AList.update key (valueToStore pf v) (items st)" by auto
      have "written st' = written st @ (key # ks)" using ks(1) w by simp
      moreover have "n' = n + length (key # ks)" using ks(2) by simp
      moreover have "fst ` set (items st) \<union> set (key # ks) \<subseteq> fst ` set (items st')"
        using ks(3) i update_keys_mono[of "items st" key "valueToStore pf v"]
          update_key_in[of key "valueToStore pf v" "items st"] by auto
      ultimately show ?thesis by blast
    qed
  qed
qed

lemma saveItems_mono: "n \<le> snd (saveItems pf env xs st n)"
proof -
  obtain st' n' where r: "saveItems pf env xs st n = (st', n')" by fastforce
  from saveItems_written[OF r] show ?thesis by (auto simp: r)
qed

lemma restoreCachedLogs_mono: "n \<le> snd (restoreCachedLogs pf env present xs st n)"
proof -
  obtain st' n' where r: "restoreCachedLogs pf env present xs st n = (st', n')" by fastforce
  from restoreCachedLogs_written[OF r] show ?thesis by (auto simp: r)
qed

lemma saveItems_counts:
  "map_of xs k = Some v \<Longrightarrow> v \<noteq> JNull \<Longrightarrow> \<not> writeFails env k \<Longrightarrow>
     n < snd (saveItems pf env xs st n)"
proof (induction xs arbitrary: st n)
  case Nil
  then show ?case by simp
next
  case (Cons x xs)
  obtain key w where x: "x = (key, w)" by (cases x)
  show ?case
  proof (cases "key = k")
    case True
    with Cons.prems x have w: "w = v" by auto
    obtain st1 where st1: "setItem env st k (valueToStore pf v) = Some st1"
      using Cons.prems(3) by (auto simp: setItem_def)
    have "n + 1 \<le> snd (saveItems pf env xs st1 (n + 1))" by (rule saveItems_mono)
    then show ?thesis
      using Cons.prems(2) by (simp add: x True w st1)
  next
    case False
    with Cons.prems x have look: "map_of xs k = Some v" by auto
    have a: "n < snd (saveItems pf env xs st n)" for st n
      by (rule Cons.IH[OF look Cons.prems(2,3)])
    have "n < snd (saveItems pf env xs st n)" "n + 1 < snd (saveItems pf env xs st' (n + 1))" for st'
      using a by blast+
    then show ?thesis
      by (auto simp: x split: option.splits) (meson Suc_lessD)
  qed
qed

lemma update_keys:
  "map fst (AList.update k v al)
     = (if k \<in> fst ` set al then map fst al else map fst al @ [k])"
  by (induction al) auto

lemma storeData_merged:
  assumes payload: "map_of dataToStore ''app_data'' = Some (JAppData backup)"
                   "distinct (map fst dataToStore)"
      and stored: "map_of (items st) ''app_data'' = Some appDataString" "appDataString \<noteq> []"
                  "jparse pf appDataString = Some (JAppData existing)"
      and io: "\<not> readFails env ''app_data''" "\<not> writeFails env ''app_data''"
  shows "fst (storeData pf env st dataToStore inherited) = Inr True
     \<and> map_of (items (snd (storeData pf env st dataToStore inherited))) ''app_data''
         = Some (stringify pf (JAppData (fst (mergeAppData existing backup))))"
proof -
  define m where "m = fst (mergeAppData existing backup)"
  define d1 where "d1 = AList.update ''app_data'' (JAppData m) dataToStore"
  have ex: "readExisting pf env st = Some (JAppData existing)"
    using stored io by (simp add: readExisting_def)
  have own: "lookupData dataToStore inherited ''app_data'' = Some (JAppData backup)"
    using payload(1) by (simp add: lookupData_def)
  have wanted: "mergeWanted (lookupData dataToStore inherited ''app_data'')
                  (Some (JAppData existing))"
    by (simp add: own mergeWanted_def)
  have key_in: "''app_data'' \<in> fst ` set dataToStore"
    using payload(1) by (metis map_of_eq_None_iff option.distinct(1))
  have inplace: "mergeInPlace (Some (JAppData existing)) dataToStore inherited = d1"
    using key_in by (simp add: mergeInPlace_def own d1_def m_def)
  have look: "map_of d1 ''app_data'' = Some (JAppData m)"
    by (simp add: d1_def update_conv')
  have again: "setProp ''app_data'' (JAppData m) d1 = d1"
  proof -
    have "''app_data'' \<in> fst ` set d1"
      using look by (metis map_of_eq_None_iff option.distinct(1))
    then show ?thesis using look by (simp add: setProp_def update_triv)
  qed
  have merged: "mergePayload (Some (JAppData existing)) dataToStore inherited = d1"
    unfolding mergePayload_def own inplace
    using again[unfolded m_def] by (cases "mergeAppData existing backup") (simp add: m_def)
  have dist: "distinct (map fst d1)"
    using payload(2) key_in by (simp add: d1_def update_keys)
  define st1 where "st1 = clearExisting env True st"
  define present where "present =
    (\<lambda>logKey. case lookupData d1 inherited logKey of Some v \<Rightarrow> jtruthy v | None \<Rightarrow> False)"
  obtain st2 n2 where s2: "saveItems pf env d1 st1 0 = (st2, n2)" by fastforce
  obtain st3 n3 where s3: "restoreCachedLogs pf env present (cacheLogs d1) st2 n2 = (st3, n3)"
    by fastforce
  have res: "storeData pf env st dataToStore inherited =
      (if n3 = 0 then (Inl NothingRestored, st3) else (Inr True, st3))"
    unfolding storeData_def Let_def ex using wanted merged inplace s2 s3
    by (simp add: st1_def present_def)
  have w2: "map_of (items st2) ''app_data'' = Some (stringify pf (JAppData m))"
    using saveItems_writes[OF dist look _ io(2), of pf st1 0] s2
    by (simp add: valueToStore_def)
  have "present ''app_data''"
    by (simp add: present_def lookupData_def look)
  then have "map_of (items (fst (restoreCachedLogs pf env present (cacheLogs d1) st2 n2)))
          ''app_data'' = map_of (items st2) ''app_data''"
    by (rule restoreCachedLogs_keeps)
  then have w3: "map_of (items st3) ''app_data'' = Some (stringify pf (JAppData m))"
    using s3 w2 by simp
  have "0 < snd (saveItems pf env d1 st1 0)"
    by (rule saveItems_counts[OF look _ io(2)]) simp
  then have "0 < n2" by (simp add: s2)
  moreover have "n2 \<le> snd (restoreCachedLogs pf env present (cacheLogs d1) st2 n2)"
    by (rule restoreCachedLogs_mono)
  ultimately have "n3 \<noteq> 0" by (simp add: s3)
  then show ?thesis
    using w3 by (simp add: res m_def)
qed

lemma mergeAppData_devices:
  "devices (fst (mergeAppData existing backup)) =
     devices existing @ filter (\<lambda>x. d_id x \<notin> d_id ` set (devices existing)) (devices backup)"
  by (simp add: mergeAppData_def Let_def split: prod.splits)

lemma mergeAppData_logs:
  "logs (fst (mergeAppData existing backup)) = fst (mergeLogs (logs existing) (logs backup))"
  by (simp add: mergeAppData_def Let_def split: prod.splits)

lemma mergeAppData_completed:
  "snd (mergeAppData existing backup) = snd (mergeLogs (logs existing) (logs backup))"
  by (simp add: mergeAppData_def Let_def split: prod.splits)

lemma storeData_written:
  "\<exists>ks. written (snd (storeData pf env st d inh)) = written st @ ks
        \<and> set ks \<subseteq> fst ` set (items (snd (storeData pf env st d inh)))
        \<and> fst (storeData pf env st d inh) = (if ks = [] then Inl NothingRestored else Inr True)"
proof -
  define ex where "ex = readExisting pf env st"
  define wanted where "wanted = mergeWanted (lookupData d inh ''app_data'') ex"
  define cached where "cached = cacheLogs (if wanted then mergeInPlace ex d inh else d)"
  define d1 where "d1 = (if wanted then mergePayload ex d inh else d)"
  define st1 where "st1 = clearExisting env wanted st"
  define present where "present =
    (\<lambda>logKey. case lookupData d1 inh logKey of Some v \<Rightarrow> jtruthy v | None \<Rightarrow> False)"
  obtain st2 n2 where s2: "saveItems pf env d1 st1 0 = (st2, n2)" by fastforce
  obtain st3 n3 where s3: "restoreCachedLogs pf env present cached st2 n2 = (st3, n3)"
    by fastforce
  have res: "storeData pf env st d inh
      = (if n3 = 0 then (Inl NothingRestored, st3) else (Inr True, st3))"
    unfolding storeData_def Let_def ex_def[symmetric] wanted_def[symmetric]
      cached_def[symmetric] d1_def[symmetric] st1_def[symmetric] present_def[symmetric]
      s2 prod.case s3 by simp
  have w1: "written st1 = written st" by (simp add: st1_def clearExisting_def)
  from saveItems_written[OF s2] obtain k2 where k2: "written st2 = written st1 @ k2"
    "n2 = length k2" "set k2 \<subseteq> fst ` set (items st2)" by auto
  from restoreCachedLogs_written[OF s3] obtain k3 where k3: "written st3 = written st2 @ k3"
    "n3 = n2 + length k3" "fst ` set (items st2) \<union> set k3 \<subseteq> fst ` set (items st3)" by auto
  have "written st3 = written st @ (k2 @ k3)" using w1 k2(1) k3(1) by simp
  moreover have "set (k2 @ k3) \<subseteq> fst ` set (items st3)" using k2(3) k3(3) by auto
  moreover have "(n3 = 0) = (k2 @ k3 = [])" using k2(2) k3(2) by simp
  ultimately show ?thesis unfolding res by (intro exI[of _ "k2 @ k3"]) auto
qed

text \<open>
  C5. \<^verbatim>\<open>restoreFromBackup\<close> raises an error on the empty text and changes nothing. For
  every text, with \<open>ks\<close> the keys written by the call (the successful \<^verbatim>\<open>setItem\<close> calls,
  all of them keys of the store afterwards): the call returns true exactly when \<open>ks\<close> is
  not empty, and raises an error exactly when \<open>ks\<close> is empty. It never returns false.
\<close>

theorem restore_reports_writes:
  "restoreFromBackup pf env st [] = (Inl EmptyBackup, st)
   \<and> (\<exists>ks. written (snd (restoreFromBackup pf env st backupJson)) = written st @ ks
          \<and> set ks \<subseteq> fst ` set (items (snd (restoreFromBackup pf env st backupJson)))
          \<and> (fst (restoreFromBackup pf env st backupJson) = Inr True) = (ks \<noteq> [])
          \<and> (\<exists>e. fst (restoreFromBackup pf env st backupJson) = Inl e) = (ks = []))
   \<and> fst (restoreFromBackup pf env st backupJson) \<noteq> Inr False"
proof -
  have empty: "restoreFromBackup pf env st [] = (Inl EmptyBackup, st)"
    by (simp add: restoreFromBackup_def)
  have main: "\<exists>ks. written (snd (restoreFromBackup pf env st backupJson)) = written st @ ks
          \<and> set ks \<subseteq> fst ` set (items (snd (restoreFromBackup pf env st backupJson)))
          \<and> (fst (restoreFromBackup pf env st backupJson) = Inr True) = (ks \<noteq> [])
          \<and> (\<exists>e. fst (restoreFromBackup pf env st backupJson) = Inl e) = (ks = [])"
  proof (cases "\<exists>d inh. restoreFromBackup pf env st backupJson = storeData pf env st d inh")
    case True
    then obtain d inh where d: "restoreFromBackup pf env st backupJson = storeData pf env st d inh"
      by blast
    from storeData_written[of pf env st d inh] obtain ks where
      "written (snd (storeData pf env st d inh)) = written st @ ks"
      "set ks \<subseteq> fst ` set (items (snd (storeData pf env st d inh)))"
      "fst (storeData pf env st d inh) = (if ks = [] then Inl NothingRestored else Inr True)"
      by blast
    then show ?thesis unfolding d by (intro exI[of _ ks]) auto
  next
    case False
    then have "\<exists>e. restoreFromBackup pf env st backupJson = (Inl e, st)"
      by (force simp: restoreFromBackup_def split: option.splits prod.splits)
    then show ?thesis by (intro exI[of _ "[]"]) auto
  qed
  then have never: "fst (restoreFromBackup pf env st backupJson) \<noteq> Inr False"
    by (metis Inl_Inr_False sum.inject(2))
  from empty main never show ?thesis by (intro conjI)
qed

lemma restore_example_B:
  "restoreFromBackup examplePlatform reliable exampleStorage ''B'' =
     (Inr True, \<lparr>items = [(''app_data'', ''document''), (''app_logs'', ''value'')],
                 written = [''app_data'', ''app_logs'']\<rparr>)"
  by code_simp

lemma restore_example_empty_object:
  "restoreFromBackup examplePlatform reliable exampleStorage ''{}'' =
     (Inl NothingRestored, \<lparr>items = [], written = []\<rparr>)"
  by code_simp

theorem restore_reports_writes_witness:
  "restoreFromBackup examplePlatform reliable exampleStorage [] = (Inl EmptyBackup, exampleStorage)
   \<and> fst (restoreFromBackup examplePlatform reliable exampleStorage ''B'') = Inr True
   \<and> written (snd (restoreFromBackup examplePlatform reliable exampleStorage ''B''))
       = [''app_data'', ''app_logs'']
   \<and> fst (restoreFromBackup examplePlatform reliable exampleStorage ''{}'') = Inl NothingRestored
   \<and> written (snd (restoreFromBackup examplePlatform reliable exampleStorage ''{}'')) = []"
  using restore_reports_writes[of examplePlatform reliable exampleStorage "''B''"]
    restore_reports_writes[of examplePlatform reliable exampleStorage "''{}''"]
  by (simp add: restore_example_B restore_example_empty_object)

text \<open>
  C2. A restore whose payload has a document under \<^verbatim>\<open>app_data\<close>, onto a store
  that holds a document under \<^verbatim>\<open>app_data\<close> (read and written without failure), succeeds
  and leaves under \<^verbatim>\<open>app_data\<close> the merged document \<open>m\<close>. The devices of \<open>m\<close> are the
  destination's devices followed by the backup's devices whose id the destination does
  not have: the ids are the union, and every device of \<open>m\<close> with an id of the destination
  is a device of the destination. The destination's buckets are merged in their order,
  up to the first one whose name the backup's buckets do not have and \<^verbatim>\<open>Object.prototype\<close>
  has (\<^verbatim>\<open>constructor\<close>, \<^verbatim>\<open>toString\<close>, ...): that bucket and the ones after it are left out,
  and the backup's buckets of their names stay as the backup has them. Among the buckets
  merged, one that only one side has is kept; for one that both have, the backup's
  entries whose id the destination's bucket does not have are followed by the
  destination's bucket. When no bucket of the destination has such a name, every bucket
  is merged, and the entry ids of a bucket that both sides have are the union.
\<close>

theorem restore_merges:
  fixes pf env st backupJson
  assumes input: "backupJson \<noteq> []"
      and parsed: "parseContent pf (cleanContent backupJson) = Some (parsedData, proto)"
                  "chooseData parsedData proto = Some (d, inherited)"
                  "objectEntries d = Some dataToStore"
      and payload: "map_of dataToStore ''app_data'' = Some (JAppData backup)"
                   "distinct (map fst dataToStore)"
      and stored: "map_of (items st) ''app_data'' = Some appDataString" "appDataString \<noteq> []"
                  "jparse pf appDataString = Some (JAppData existing)"
      and io: "\<not> readFails env ''app_data''" "\<not> writeFails env ''app_data''"
      and keys: "distinct (map fst (logs existing))"
  defines "r \<equiv> restoreFromBackup pf env st backupJson"
  defines "m \<equiv> fst (mergeAppData existing backup)"
  defines "reached \<equiv> takeWhile (\<lambda>e. getProp (logs backup) (fst e) \<noteq> Inherited) (logs existing)"
  shows "fst r = Inr True
     \<and> map_of (items (snd r)) ''app_data'' = Some (stringify pf (JAppData m))
     \<and> devices m = devices existing
          @ filter (\<lambda>x. d_id x \<notin> d_id ` set (devices existing)) (devices backup)
     \<and> d_id ` set (devices m) = d_id ` set (devices existing) \<union> d_id ` set (devices backup)
     \<and> (\<forall>x \<in> set (devices m). d_id x \<in> d_id ` set (devices existing)
            \<longrightarrow> x \<in> set (devices existing))
     \<and> (\<forall>k. map_of (logs m) k =
            (case map_of reached k of
               None \<Rightarrow> map_of (logs backup) k
             | Some es \<Rightarrow>
                 (case map_of (logs backup) k of
                    None \<Rightarrow> Some es
                  | Some bs \<Rightarrow> Some (filter (\<lambda>x. l_id x \<notin> l_id ` set es) bs @ es))))
     \<and> (list_all (\<lambda>e. getProp (logs backup) (fst e) \<noteq> Inherited) (logs existing)
          \<longrightarrow> reached = logs existing
            \<and> (\<forall>k es bs. map_of (logs existing) k = Some es \<and> map_of (logs backup) k = Some bs
                  \<longrightarrow> (\<exists>ms. map_of (logs m) k = Some ms
                            \<and> l_id ` set ms = l_id ` set es \<union> l_id ` set bs
                            \<and> set es \<subseteq> set ms
                            \<and> {x \<in> set bs. l_id x \<notin> l_id ` set es} \<subseteq> set ms)))"
proof -
  have r: "r = storeData pf env st dataToStore inherited"
    using input parsed by (simp add: r_def restoreFromBackup_def)
  note sm = storeData_merged[OF payload stored io, of inherited]
  have ok: "fst r = Inr True"
    unfolding r by (rule conjunct1[OF sm])
  have doc: "map_of (items (snd r)) ''app_data'' = Some (stringify pf (JAppData m))"
    unfolding r m_def by (rule conjunct2[OF sm])
  have devs: "devices m = devices existing
          @ filter (\<lambda>x. d_id x \<notin> d_id ` set (devices existing)) (devices backup)"
    by (simp add: m_def mergeAppData_devices)
  have ids: "d_id ` set (devices m) = d_id ` set (devices existing) \<union> d_id ` set (devices backup)"
    unfolding devs by auto
  have wins: "\<forall>x \<in> set (devices m). d_id x \<in> d_id ` set (devices existing)
            \<longrightarrow> x \<in> set (devices existing)"
    unfolding devs by auto
  have look: "map_of (logs m) k =
            (case map_of reached k of
               None \<Rightarrow> map_of (logs backup) k
             | Some es \<Rightarrow>
                 (case map_of (logs backup) k of
                    None \<Rightarrow> Some es
                  | Some bs \<Rightarrow> Some (filter (\<lambda>x. l_id x \<notin> l_id ` set es) bs @ es)))" for k
    unfolding m_def mergeAppData_logs reached_def by (rule mergeLogs_lookup[OF keys])
  have look_all: "\<forall>k. map_of (logs m) k =
            (case map_of reached k of
               None \<Rightarrow> map_of (logs backup) k
             | Some es \<Rightarrow>
                 (case map_of (logs backup) k of
                    None \<Rightarrow> Some es
                  | Some bs \<Rightarrow> Some (filter (\<lambda>x. l_id x \<notin> l_id ` set es) bs @ es)))"
    by (intro allI) (rule look)
  have complete: "reached = logs existing
            \<and> (\<forall>k es bs. map_of (logs existing) k = Some es \<and> map_of (logs backup) k = Some bs
                  \<longrightarrow> (\<exists>ms. map_of (logs m) k = Some ms
                            \<and> l_id ` set ms = l_id ` set es \<union> l_id ` set bs
                            \<and> set es \<subseteq> set ms
                            \<and> {x \<in> set bs. l_id x \<notin> l_id ` set es} \<subseteq> set ms))"
    if all: "list_all (\<lambda>e. getProp (logs backup) (fst e) \<noteq> Inherited) (logs existing)"
  proof -
    have whole: "reached = logs existing"
      unfolding reached_def using all by (simp add: list_all_iff)
    have union: "\<exists>ms. map_of (logs m) k = Some ms
                      \<and> l_id ` set ms = l_id ` set es \<union> l_id ` set bs
                      \<and> set es \<subseteq> set ms
                      \<and> {x \<in> set bs. l_id x \<notin> l_id ` set es} \<subseteq> set ms"
      if "map_of (logs existing) k = Some es" "map_of (logs backup) k = Some bs" for k es bs
      unfolding look whole using that by auto
    have "\<forall>k es bs. map_of (logs existing) k = Some es \<and> map_of (logs backup) k = Some bs
                  \<longrightarrow> (\<exists>ms. map_of (logs m) k = Some ms
                            \<and> l_id ` set ms = l_id ` set es \<union> l_id ` set bs
                            \<and> set es \<subseteq> set ms
                            \<and> {x \<in> set bs. l_id x \<notin> l_id ` set es} \<subseteq> set ms)"
      by (intro allI impI, elim conjE) (rule union)
    with whole show ?thesis by (rule conjI)
  qed
  then have complete_imp:
    "list_all (\<lambda>e. getProp (logs backup) (fst e) \<noteq> Inherited) (logs existing)
          \<longrightarrow> reached = logs existing
            \<and> (\<forall>k es bs. map_of (logs existing) k = Some es \<and> map_of (logs backup) k = Some bs
                  \<longrightarrow> (\<exists>ms. map_of (logs m) k = Some ms
                            \<and> l_id ` set ms = l_id ` set es \<union> l_id ` set bs
                            \<and> set es \<subseteq> set ms
                            \<and> {x \<in> set bs. l_id x \<notin> l_id ` set es} \<subseteq> set ms))"
    by (rule impI)
  show ?thesis
    by (rule conjI, fact ok, rule conjI, fact doc, rule conjI, fact devs, rule conjI, fact ids,
        rule conjI, fact wins, rule conjI, fact look_all, fact complete_imp)
qed

theorem restore_merges_witness:
  "map d_name (devices destinationData) = [''Front gate'']
   \<and> map d_id (devices destinationData) = [''a'']
   \<and> map d_id (devices backupData) = [''a'', ''b'']
   \<and> map d_name (devices backupData) = [''Renamed'', ''Back gate'']
   \<and> list_all (\<lambda>e. getProp (logs backupData) (fst e) \<noteq> Inherited) (logs destinationData)
   \<and> fst (restoreFromBackup examplePlatform reliable exampleStorage ''B'') = Inr True
   \<and> map_of (items (snd (restoreFromBackup examplePlatform reliable exampleStorage ''B'')))
        ''app_data''
       = Some (stringify examplePlatform (JAppData (fst (mergeAppData destinationData backupData))))
   \<and> map d_id (devices (fst (mergeAppData destinationData backupData))) = [''a'', ''b'']
   \<and> map d_name (devices (fst (mergeAppData destinationData backupData)))
       = [''Front gate'', ''Back gate'']
   \<and> map_option (map l_id) (map_of (logs (fst (mergeAppData destinationData backupData))) ''a'')
       = Some [''l3'', ''l1'', ''l2'']
   \<and> map_option (map l_id) (map_of (logs (fst (mergeAppData destinationData backupData))) ''b'')
       = Some [''l4'']"
proof -
  let ?payload = "[(''app_data'', JAppData backupData)]"
  have clean: "cleanContent ''B'' = ''B''" by code_simp
  have h1: "''B'' \<noteq> []" by simp
  have h2: "parseContent examplePlatform (cleanContent ''B'') = Some (JObj ?payload, JNull)"
    unfolding clean by (simp add: parseContent_def examplePlatform_def)
  have h3: "chooseData (JObj ?payload) JNull = Some (JObj ?payload, JNull)"
    by (simp add: chooseData_def lookupData_def)
  have h4: "objectEntries (JObj ?payload) = Some ?payload" by simp
  have h5: "map_of ?payload ''app_data'' = Some (JAppData backupData)" by simp
  have h6: "distinct (map fst ?payload)" by simp
  have h7: "map_of (items exampleStorage) ''app_data'' = Some ''E''"
    by (simp add: exampleStorage_def)
  have h8: "''E'' \<noteq> []" by simp
  have h9: "jparse examplePlatform ''E'' = Some (JAppData destinationData)"
    by (simp add: examplePlatform_def)
  have h10: "\<not> readFails reliable ''app_data''" "\<not> writeFails reliable ''app_data''"
    by (simp_all add: reliable_def)
  have h11: "distinct (map fst (logs destinationData))"
    by (simp add: destinationData_def)
  note t = restore_merges[OF h1 h2 h3 h4 h5 h6 h7 h8 h9 h10 h11]
  have all: "list_all (\<lambda>e. getProp (logs backupData) (fst e) \<noteq> Inherited) (logs destinationData)"
    by (simp add: destinationData_def backupData_def getProp_def)
  have whole: "takeWhile (\<lambda>e. getProp (logs backupData) (fst e) \<noteq> Inherited) (logs destinationData)
      = logs destinationData"
    using all by (simp add: list_all_iff)
  have a: "map_of (logs destinationData) ''a'' = Some [logEntryWithId ''l1'', logEntryWithId ''l2'']"
    and b: "map_of (logs backupData) ''a'' = Some [logEntryWithId ''l2'', logEntryWithId ''l3'']"
    and c: "map_of (logs destinationData) ''b'' = None"
    and d: "map_of (logs backupData) ''b'' = Some [logEntryWithId ''l4'']"
    by (simp_all add: destinationData_def backupData_def)
  from t have la: "map_of (logs (fst (mergeAppData destinationData backupData))) ''a'' =
      Some [logEntryWithId ''l3'', logEntryWithId ''l1'', logEntryWithId ''l2'']"
    unfolding whole by (simp add: a b logEntryWithId_def)
  from t have lb: "map_of (logs (fst (mergeAppData destinationData backupData))) ''b'' =
      Some [logEntryWithId ''l4'']"
    unfolding whole by (simp add: c d)
  from t have dv: "devices (fst (mergeAppData destinationData backupData)) =
      [deviceNamed ''a'' ''Front gate'', deviceNamed ''b'' ''Back gate'']"
    by (simp add: destinationData_def backupData_def deviceNamed_def)
  from t have r1: "fst (restoreFromBackup examplePlatform reliable exampleStorage ''B'') = Inr True"
    and r2: "map_of (items (snd (restoreFromBackup examplePlatform reliable exampleStorage ''B'')))
        ''app_data''
       = Some (stringify examplePlatform (JAppData (fst (mergeAppData destinationData backupData))))"
    by blast+
  have names: "map d_name (devices destinationData) = [''Front gate'']"
      "map d_id (devices destinationData) = [''a'']"
      "map d_id (devices backupData) = [''a'', ''b'']"
      "map d_name (devices backupData) = [''Renamed'', ''Back gate'']"
    by (simp_all add: destinationData_def backupData_def deviceNamed_def)
  show ?thesis
    unfolding la lb dv using r1 r2 all names
    by (simp add: deviceNamed_def logEntryWithId_def)
qed

theorem restore_merges_counterexample:
  "map_of (items exampleStorage) ''app_data'' = Some ''E''
   \<and> jparse constructorPlatform ''E'' = Some (JAppData constructorDestination)
   \<and> jparse constructorPlatform ''B'' = Some (JObj [(''app_data'', JAppData constructorBackup)])
   \<and> map (\<lambda>(k, es). (k, map l_id es)) (logs constructorDestination)
       = [(''constructor'', [''l1'']), (''a'', [''l2''])]
   \<and> map (\<lambda>(k, es). (k, map l_id es)) (logs constructorBackup) = [(''a'', [''l3''])]
   \<and> fst (restoreFromBackup constructorPlatform reliable exampleStorage ''B'') = Inr True
   \<and> map_of (items (snd (restoreFromBackup constructorPlatform reliable exampleStorage ''B'')))
        ''app_data'' = Some (showBuckets (JAppData (fst (mergeAppData constructorDestination constructorBackup))))
   \<and> map (\<lambda>(k, es). (k, map l_id es)) (logs (fst (mergeAppData constructorDestination constructorBackup)))
       = [(''a'', [''l3''])]
   \<and> map_of (items (snd (restoreFromBackup constructorPlatform reliable exampleStorage ''B'')))
        ''app_data'' = Some ''a: l3;''"
  by code_simp

section \<open>Log buckets\<close>

lemma take_append_take:
  "n \<le> length xs + m \<Longrightarrow> take n (xs @ take m ys) = take n (xs @ ys)"
  by (auto simp: min_def)

lemma getDeviceLogs_Inr:
  "(\<exists>old. getDeviceLogs s deviceId = Inr old)
     = (getProp (logs (store s)) (if deviceId = [] \<or> trim deviceId = [] then ''system'' else deviceId)
          \<noteq> Inherited)"
  by (auto simp: getDeviceLogs_def Let_def split: propRead.splits)

lemma getDeviceLogs_Inl:
  "(getDeviceLogs s deviceId = Inl TypeError)
     = (getProp (logs (store s)) (if deviceId = [] \<or> trim deviceId = [] then ''system'' else deviceId)
          = Inherited)"
  by (auto simp: getDeviceLogs_def Let_def split: propRead.splits)

lemma addDeviceLog_bucket:
  assumes "getDeviceLogs s deviceId = Inr old"
  shows "fst (addDeviceLog s newId now deviceId act det succ cat)
           = Inr (entryOf None (newId, now, act, det, succ, cat))
     \<and> getDeviceLogs (snd (addDeviceLog s newId now deviceId act det succ cat)) deviceId
           = Inr (entryOf None (newId, now, act, det, succ, cat) # take 199 old)"
proof -
  define k where "k = (if deviceId = [] \<or> trim deviceId = [] then ''system'' else deviceId)"
  have k: "getProp (logs (store s)) k = Own old
             \<or> (getProp (logs (store s)) k = Undefined \<and> old = [])"
    using assms by (auto simp: getDeviceLogs_def Let_def k_def split: propRead.splits)
  then show ?thesis
  proof
    assume own: "getProp (logs (store s)) k = Own old"
    then show ?thesis
      unfolding addDeviceLog_def getDeviceLogs_def Let_def k_def[symmetric]
      by (simp add: entryOf_def getProp_setProp_same)
  next
    assume "getProp (logs (store s)) k = Undefined \<and> old = []"
    then show ?thesis
      unfolding addDeviceLog_def getDeviceLogs_def Let_def k_def[symmetric]
      by (simp add: entryOf_def getProp_setProp_same)
  qed
qed

lemma addDeviceLog_raises:
  assumes "getDeviceLogs s deviceId = Inl TypeError"
  shows "addDeviceLog s newId now deviceId act det succ cat = (Inl TypeError, s)"
proof -
  define k where "k = (if deviceId = [] \<or> trim deviceId = [] then ''system'' else deviceId)"
  have "getProp (logs (store s)) k = Inherited"
    using assms by (simp add: getDeviceLogs_Inl k_def)
  then show ?thesis
    unfolding addDeviceLog_def Let_def k_def[symmetric] by simp
qed

lemma addDeviceLogs_Cons:
  "addDeviceLogs s deviceId ((newId, now, act, det, succ, cat) # rest) =
     (fst (addDeviceLog s newId now deviceId act det succ cat)
        # fst (addDeviceLogs (snd (addDeviceLog s newId now deviceId act det succ cat)) deviceId rest),
      snd (addDeviceLogs (snd (addDeviceLog s newId now deviceId act det succ cat)) deviceId rest))"
  by (simp add: split_beta)

lemma addDeviceLogs_raise:
  "getDeviceLogs s deviceId = Inl TypeError \<Longrightarrow>
     addDeviceLogs s deviceId es = (map (\<lambda>e. Inl TypeError) es, s)"
proof (induction es)
  case Nil
  then show ?case by simp
next
  case (Cons e es)
  obtain newId now act det succ cat where e: "e = (newId, now, act, det, succ, cat)"
    by (cases e) auto
  show ?case
    unfolding e addDeviceLogs_Cons using Cons by (simp add: addDeviceLog_raises)
qed

lemma addDeviceLogs_results:
  "getDeviceLogs s deviceId = Inr old \<Longrightarrow>
     fst (addDeviceLogs s deviceId es) = map (\<lambda>e. Inr (entryOf None e)) es"
proof (induction es arbitrary: s old)
  case Nil
  then show ?case by simp
next
  case (Cons e es)
  obtain newId now act det succ cat where e: "e = (newId, now, act, det, succ, cat)"
    by (cases e) auto
  obtain r s1 where a: "addDeviceLog s newId now deviceId act det succ cat = (r, s1)"
    by fastforce
  from addDeviceLog_bucket[OF Cons.prems, of newId now act det succ cat]
  have r: "r = Inr (entryOf None e)"
    and b1: "getDeviceLogs s1 deviceId = Inr (entryOf None e # take 199 old)"
    by (simp_all add: a e)
  have "fst (addDeviceLogs s deviceId (e # es)) = r # fst (addDeviceLogs s1 deviceId es)"
    unfolding e addDeviceLogs_Cons by (simp add: a)
  then show ?case
    using Cons.IH[OF b1] by (simp add: r)
qed

lemma addDeviceLogs_bucket:
  "getDeviceLogs s deviceId = Inr old \<Longrightarrow> es \<noteq> [] \<Longrightarrow>
   getDeviceLogs (snd (addDeviceLogs s deviceId es)) deviceId
     = Inr (take 200 (rev (map (entryOf None) es) @ old))"
proof (induction es arbitrary: s old)
  case Nil
  then show ?case by simp
next
  case (Cons e es)
  obtain newId now act det succ cat where e: "e = (newId, now, act, det, succ, cat)"
    by (cases e) auto
  obtain r s1 where a: "addDeviceLog s newId now deviceId act det succ cat = (r, s1)"
    by fastforce
  from addDeviceLog_bucket[OF Cons.prems(1), of newId now act det succ cat]
  have b1: "getDeviceLogs s1 deviceId = Inr (entryOf None e # take 199 old)"
    by (simp add: a e)
  have step: "snd (addDeviceLogs s deviceId (e # es)) = snd (addDeviceLogs s1 deviceId es)"
    unfolding e addDeviceLogs_Cons by (simp add: a)
  show ?case
  proof (cases "es = []")
    case True
    then show ?thesis unfolding step using b1 by (simp add: take_Cons')
  next
    case False
    have "getDeviceLogs (snd (addDeviceLogs s1 deviceId es)) deviceId
        = Inr (take 200 (rev (map (entryOf None) es) @ entryOf None e # take 199 old))"
      by (rule Cons.IH[OF b1 False])
    also have "take 200 (rev (map (entryOf None) es) @ entryOf None e # take 199 old)
        = take 200 ((rev (map (entryOf None) es) @ [entryOf None e]) @ take 199 old)"
      by simp
    also have "\<dots> = take 200 ((rev (map (entryOf None) es) @ [entryOf None e]) @ old)"
      by (rule take_append_take) simp
    finally show ?thesis unfolding step by simp
  qed
qed

lemma keys_differ: "getDeviceLogsKey d \<noteq> SYSTEM_LOGS_KEY"
  by (simp add: getDeviceLogsKey_def SYSTEM_LOGS_KEY_def)

lemma system_key_nonempty: "SYSTEM_LOGS_KEY \<noteq> []" and device_key_nonempty: "getDeviceLogsKey d \<noteq> []"
  by (simp_all add: getDeviceLogsKey_def SYSTEM_LOGS_KEY_def)

lemma bucketOf_safeSetItem_other:
  "k \<noteq> key \<Longrightarrow> bucketOf (safeSetItem env st key v) k = bucketOf st k"
  by (simp add: bucketOf_def safeSetItem_def validateKey_def update_conv')

lemma bucketOf_safeSetItem_same:
  "key \<noteq> [] \<Longrightarrow> \<not> writeFails env key \<Longrightarrow> bucketOf (safeSetItem env st key v) key = v"
  by (simp add: bucketOf_def safeSetItem_def validateKey_def update_conv')

lemma safeGetItem_bucket:
  "key \<noteq> [] \<Longrightarrow> \<not> readFails env key \<Longrightarrow>
     (case safeGetItem env st key fb of None \<Rightarrow> [] | Some l \<Rightarrow> l) = bucketOf st key"
  by (simp add: bucketOf_def safeGetItem_def validateKey_def)

lemma addLog_system:
  assumes "\<not> readFails env SYSTEM_LOGS_KEY" "\<not> writeFails env SYSTEM_LOGS_KEY"
  shows "bucketOf (snd (addLog env st newId now act det succ dev cat)) SYSTEM_LOGS_KEY
     = entryOf dev (newId, now, act, det, succ, cat) # take 99 (bucketOf st SYSTEM_LOGS_KEY)"
proof -
  define st1 where "st1 = (if truthy dev
                 then
                   let deviceLogsKey = getDeviceLogsKey (the dev);
                       logs = (case safeGetItem env st deviceLogsKey (Some ''[]'') of
                                 None \<Rightarrow> [] | Some l \<Rightarrow> l);
                       updatedLogs = entryOf dev (newId, now, act, det, succ, cat) # take 199 logs
                   in safeSetItem env st deviceLogsKey updatedLogs
                 else st)"
  have same: "bucketOf st1 SYSTEM_LOGS_KEY = bucketOf st SYSTEM_LOGS_KEY"
    unfolding st1_def Let_def
    using keys_differ[of "the dev"] by (simp add: bucketOf_safeSetItem_other)
  have "snd (addLog env st newId now act det succ dev cat) =
      safeSetItem env st1 SYSTEM_LOGS_KEY
        (entryOf dev (newId, now, act, det, succ, cat) # take 99
           (case safeGetItem env st1 SYSTEM_LOGS_KEY (Some ''[]'') of None \<Rightarrow> [] | Some l \<Rightarrow> l))"
    by (simp add: addLog_def Let_def st1_def entryOf_def)
  then show ?thesis
    using assms same
    by (simp add: bucketOf_safeSetItem_same system_key_nonempty safeGetItem_bucket)
qed

lemma addLog_device:
  assumes "d \<noteq> []" "\<not> readFails env (getDeviceLogsKey d)" "\<not> writeFails env (getDeviceLogsKey d)"
  shows "bucketOf (snd (addLog env st newId now act det succ (Some d) cat)) (getDeviceLogsKey d)
     = entryOf (Some d) (newId, now, act, det, succ, cat) # take 199 (bucketOf st (getDeviceLogsKey d))"
proof -
  have "bucketOf (snd (addLog env st newId now act det succ (Some d) cat)) (getDeviceLogsKey d)
      = bucketOf (safeSetItem env st (getDeviceLogsKey d)
          (entryOf (Some d) (newId, now, act, det, succ, cat) # take 199
            (case safeGetItem env st (getDeviceLogsKey d) (Some ''[]'') of None \<Rightarrow> [] | Some l \<Rightarrow> l)))
          (getDeviceLogsKey d)"
    using assms(1) keys_differ[of d]
    by (simp add: addLog_def Let_def entryOf_def bucketOf_safeSetItem_other)
  then show ?thesis
    using assms
    by (simp add: bucketOf_safeSetItem_same device_key_nonempty safeGetItem_bucket)
qed

lemma addLog_entry:
  "fst (addLog env st newId now act det succ dev cat) = entryOf dev (newId, now, act, det, succ, cat)"
  by (simp add: addLog_def Let_def entryOf_def)

lemma addLogs_system:
  assumes "\<not> readFails env SYSTEM_LOGS_KEY" "\<not> writeFails env SYSTEM_LOGS_KEY"
  shows "es \<noteq> [] \<Longrightarrow> bucketOf (addLogs env st dev es) SYSTEM_LOGS_KEY
     = take 100 (rev (map (entryOf dev) es) @ bucketOf st SYSTEM_LOGS_KEY)"
proof (induction es arbitrary: st)
  case Nil
  then show ?case by simp
next
  case (Cons e es)
  obtain newId now act det succ cat where e: "e = (newId, now, act, det, succ, cat)"
    by (cases e) auto
  define s1 where "s1 = snd (addLog env st newId now act det succ dev cat)"
  have b1: "bucketOf s1 SYSTEM_LOGS_KEY = take 100 (entryOf dev e # bucketOf st SYSTEM_LOGS_KEY)"
    unfolding s1_def addLog_system[OF assms] e by (simp add: take_Cons')
  show ?case
  proof (cases "es = []")
    case True
    then show ?thesis using b1 by (simp add: e s1_def)
  next
    case False
    have "bucketOf (addLogs env s1 dev es) SYSTEM_LOGS_KEY
        = take 100 (rev (map (entryOf dev) es) @ bucketOf s1 SYSTEM_LOGS_KEY)"
      by (rule Cons.IH[OF False])
    also have "\<dots> = take 100 (rev (map (entryOf dev) es) @ entryOf dev e # bucketOf st SYSTEM_LOGS_KEY)"
      unfolding b1 by (rule take_append_take) simp
    finally show ?thesis by (simp add: e s1_def)
  qed
qed

lemma addLogs_device:
  assumes "d \<noteq> []" "\<not> readFails env (getDeviceLogsKey d)" "\<not> writeFails env (getDeviceLogsKey d)"
  shows "es \<noteq> [] \<Longrightarrow> bucketOf (addLogs env st (Some d) es) (getDeviceLogsKey d)
     = take 200 (rev (map (entryOf (Some d)) es) @ bucketOf st (getDeviceLogsKey d))"
proof (induction es arbitrary: st)
  case Nil
  then show ?case by simp
next
  case (Cons e es)
  obtain newId now act det succ cat where e: "e = (newId, now, act, det, succ, cat)"
    by (cases e) auto
  define s1 where "s1 = snd (addLog env st newId now act det succ (Some d) cat)"
  have b1: "bucketOf s1 (getDeviceLogsKey d)
      = take 200 (entryOf (Some d) e # bucketOf st (getDeviceLogsKey d))"
    unfolding s1_def addLog_device[OF assms] e by (simp add: take_Cons')
  show ?case
  proof (cases "es = []")
    case True
    then show ?thesis using b1 by (simp add: e s1_def)
  next
    case False
    have "bucketOf (addLogs env s1 (Some d) es) (getDeviceLogsKey d)
        = take 200 (rev (map (entryOf (Some d)) es) @ bucketOf s1 (getDeviceLogsKey d))"
      by (rule Cons.IH[OF False])
    also have "\<dots> = take 200 (rev (map (entryOf (Some d)) es)
                         @ entryOf (Some d) e # bucketOf st (getDeviceLogsKey d))"
      unfolding b1 by (rule take_append_take) simp
    finally show ?thesis by (simp add: e s1_def)
  qed
qed


text \<open>
  C6. Take a device id and the name \<open>k\<close> it stands for (\<^verbatim>\<open>system\<close> for an empty
  or blank id, else the id itself). When \<open>k\<close> is the name of a bucket of the store, or is
  not the name of a property of \<^verbatim>\<open>Object.prototype\<close>: an append returns the new entry and
  puts it in front of the first 199 entries of the bucket; after any non-empty sequence
  of appends the bucket is the first 200 of the new entries, newest first, followed by
  the old bucket, so it has at most 200 entries, and exactly 200 after 205 appends.
  When \<open>k\<close> is no bucket of the store and is the name of a property of
  \<^verbatim>\<open>Object.prototype\<close> (\<^verbatim>\<open>constructor\<close>, \<^verbatim>\<open>toString\<close>, ...): every append raises a
  \<^verbatim>\<open>TypeError\<close> and leaves the store as it is, and reading the bucket raises too. In the
  log manager an append puts the new entry in front of the first 199 entries of the
  device's bucket and in front of the first 99 entries of the system bucket; after any
  non-empty sequence of appends for one device the device's bucket is the first 200 and
  the system bucket the first 100 of the new entries, newest first, followed by the old
  bucket, and 205 appends leave exactly 200 and exactly 100. (For the log manager the
  calls of the key-value store on the two keys are taken to succeed.)
\<close>

theorem log_buckets_bounded:
  fixes s deviceId es env st d dev
  assumes dev: "d \<noteq> []"
      and io: "\<not> readFails env (getDeviceLogsKey d)" "\<not> writeFails env (getDeviceLogsKey d)"
              "\<not> readFails env SYSTEM_LOGS_KEY" "\<not> writeFails env SYSTEM_LOGS_KEY"
      and es: "es \<noteq> []"
  defines "k \<equiv> (if deviceId = [] \<or> trim deviceId = [] then ''system'' else deviceId)"
  shows "(getProp (logs (store s)) k \<noteq> Inherited \<longrightarrow>
           (\<exists>old new. getDeviceLogs s deviceId = Inr old
              \<and> fst (addDeviceLog s newId now deviceId act det succ cat)
                  = Inr (entryOf None (newId, now, act, det, succ, cat))
              \<and> getDeviceLogs (snd (addDeviceLog s newId now deviceId act det succ cat)) deviceId
                  = Inr (entryOf None (newId, now, act, det, succ, cat) # take 199 old)
              \<and> fst (addDeviceLogs s deviceId es) = map (\<lambda>e. Inr (entryOf None e)) es
              \<and> getDeviceLogs (snd (addDeviceLogs s deviceId es)) deviceId = Inr new
              \<and> new = take 200 (rev (map (entryOf None) es) @ old)
              \<and> length new \<le> 200
              \<and> (length es = 205 \<longrightarrow> length new = 200)))
     \<and> (getProp (logs (store s)) k = Inherited \<longrightarrow>
           getDeviceLogs s deviceId = Inl TypeError
           \<and> addDeviceLog s newId now deviceId act det succ cat = (Inl TypeError, s)
           \<and> addDeviceLogs s deviceId es = (map (\<lambda>e. Inl TypeError) es, s))
     \<and> bucketOf (snd (addLog env st newId now act det succ (Some d) cat)) (getDeviceLogsKey d)
           = fst (addLog env st newId now act det succ (Some d) cat)
             # take 199 (bucketOf st (getDeviceLogsKey d))
     \<and> bucketOf (snd (addLog env st newId now act det succ dev cat)) SYSTEM_LOGS_KEY
           = fst (addLog env st newId now act det succ dev cat)
             # take 99 (bucketOf st SYSTEM_LOGS_KEY)
     \<and> bucketOf (addLogs env st (Some d) es) (getDeviceLogsKey d)
           = take 200 (rev (map (entryOf (Some d)) es) @ bucketOf st (getDeviceLogsKey d))
     \<and> bucketOf (addLogs env st dev es) SYSTEM_LOGS_KEY
           = take 100 (rev (map (entryOf dev) es) @ bucketOf st SYSTEM_LOGS_KEY)
     \<and> length (bucketOf (addLogs env st (Some d) es) (getDeviceLogsKey d)) \<le> 200
     \<and> length (bucketOf (addLogs env st dev es) SYSTEM_LOGS_KEY) \<le> 100
     \<and> (length es = 205 \<longrightarrow>
           length (bucketOf (addLogs env st (Some d) es) (getDeviceLogsKey d)) = 200
           \<and> length (bucketOf (addLogs env st dev es) SYSTEM_LOGS_KEY) = 100)"
proof -
  have usable: "\<exists>old new. getDeviceLogs s deviceId = Inr old
              \<and> fst (addDeviceLog s newId now deviceId act det succ cat)
                  = Inr (entryOf None (newId, now, act, det, succ, cat))
              \<and> getDeviceLogs (snd (addDeviceLog s newId now deviceId act det succ cat)) deviceId
                  = Inr (entryOf None (newId, now, act, det, succ, cat) # take 199 old)
              \<and> fst (addDeviceLogs s deviceId es) = map (\<lambda>e. Inr (entryOf None e)) es
              \<and> getDeviceLogs (snd (addDeviceLogs s deviceId es)) deviceId = Inr new
              \<and> new = take 200 (rev (map (entryOf None) es) @ old)
              \<and> length new \<le> 200
              \<and> (length es = 205 \<longrightarrow> length new = 200)"
    if "getProp (logs (store s)) k \<noteq> Inherited"
  proof -
    from that obtain old where old: "getDeviceLogs s deviceId = Inr old"
      unfolding k_def getDeviceLogs_Inr[symmetric] by blast
    define new where "new = take 200 (rev (map (entryOf None) es) @ old)"
    note one = addDeviceLog_bucket[OF old, of newId now act det succ cat]
    have res: "fst (addDeviceLogs s deviceId es) = map (\<lambda>e. Inr (entryOf None e)) es"
      by (rule addDeviceLogs_results[OF old])
    have many: "getDeviceLogs (snd (addDeviceLogs s deviceId es)) deviceId = Inr new"
      unfolding new_def by (rule addDeviceLogs_bucket[OF old es])
    have bound: "length new \<le> 200" by (simp add: new_def)
    have exact: "length es = 205 \<longrightarrow> length new = 200" by (simp add: new_def)
    show ?thesis
      apply (rule exI[of _ old], rule exI[of _ new])
      using old one res many bound exact new_def by blast
  qed
  then have part1: "getProp (logs (store s)) k \<noteq> Inherited \<longrightarrow>
           (\<exists>old new. getDeviceLogs s deviceId = Inr old
              \<and> fst (addDeviceLog s newId now deviceId act det succ cat)
                  = Inr (entryOf None (newId, now, act, det, succ, cat))
              \<and> getDeviceLogs (snd (addDeviceLog s newId now deviceId act det succ cat)) deviceId
                  = Inr (entryOf None (newId, now, act, det, succ, cat) # take 199 old)
              \<and> fst (addDeviceLogs s deviceId es) = map (\<lambda>e. Inr (entryOf None e)) es
              \<and> getDeviceLogs (snd (addDeviceLogs s deviceId es)) deviceId = Inr new
              \<and> new = take 200 (rev (map (entryOf None) es) @ old)
              \<and> length new \<le> 200
              \<and> (length es = 205 \<longrightarrow> length new = 200))"
    by (rule impI)
  have part2: "getProp (logs (store s)) k = Inherited \<longrightarrow>
           getDeviceLogs s deviceId = Inl TypeError
           \<and> addDeviceLog s newId now deviceId act det succ cat = (Inl TypeError, s)
           \<and> addDeviceLogs s deviceId es = (map (\<lambda>e. Inl TypeError) es, s)"
  proof
    assume "getProp (logs (store s)) k = Inherited"
    then have raises: "getDeviceLogs s deviceId = Inl TypeError"
      by (simp add: getDeviceLogs_Inl k_def)
    then show "getDeviceLogs s deviceId = Inl TypeError
           \<and> addDeviceLog s newId now deviceId act det succ cat = (Inl TypeError, s)
           \<and> addDeviceLogs s deviceId es = (map (\<lambda>e. Inl TypeError) es, s)"
      by (simp add: addDeviceLog_raises addDeviceLogs_raise)
  qed
  have one_dev: "bucketOf (snd (addLog env st newId now act det succ (Some d) cat)) (getDeviceLogsKey d)
           = fst (addLog env st newId now act det succ (Some d) cat)
             # take 199 (bucketOf st (getDeviceLogsKey d))"
    by (simp only: addLog_device[OF dev io(1,2)] addLog_entry)
  have one_sys: "bucketOf (snd (addLog env st newId now act det succ dev cat)) SYSTEM_LOGS_KEY
           = fst (addLog env st newId now act det succ dev cat)
             # take 99 (bucketOf st SYSTEM_LOGS_KEY)"
    by (simp only: addLog_system[OF io(3,4)] addLog_entry)
  have many_dev: "bucketOf (addLogs env st (Some d) es) (getDeviceLogsKey d)
           = take 200 (rev (map (entryOf (Some d)) es) @ bucketOf st (getDeviceLogsKey d))"
    by (rule addLogs_device[OF dev io(1,2) es])
  have many_sys: "bucketOf (addLogs env st dev es) SYSTEM_LOGS_KEY
           = take 100 (rev (map (entryOf dev) es) @ bucketOf st SYSTEM_LOGS_KEY)"
    by (rule addLogs_system[OF io(3,4) es])
  have bound_dev: "length (bucketOf (addLogs env st (Some d) es) (getDeviceLogsKey d)) \<le> 200"
    unfolding many_dev by simp
  have bound_sys: "length (bucketOf (addLogs env st dev es) SYSTEM_LOGS_KEY) \<le> 100"
    unfolding many_sys by simp
  have exact_both: "length es = 205 \<longrightarrow>
           length (bucketOf (addLogs env st (Some d) es) (getDeviceLogsKey d)) = 200
           \<and> length (bucketOf (addLogs env st dev es) SYSTEM_LOGS_KEY) = 100"
    unfolding many_dev many_sys by simp
  show ?thesis
    by (rule conjI, fact part1, rule conjI, fact part2, rule conjI, fact one_dev,
        rule conjI, fact one_sys, rule conjI, fact many_dev, rule conjI, fact many_sys,
        rule conjI, fact bound_dev, rule conjI, fact bound_sys, fact exact_both)
qed

theorem log_buckets_bounded_witness:
  "''d1'' \<noteq> [] \<and> map appendNumbered [0..<205] \<noteq> []
   \<and> length (map appendNumbered [0..<205]) = 205
   \<and> getProp (logs (store exampleStore)) ''d1'' \<noteq> Inherited
   \<and> map_sum id length
        (getDeviceLogs (snd (addDeviceLogs exampleStore ''d1'' (map appendNumbered [0..<205]))) ''d1'')
       = Inr 200
   \<and> length (bucketOf (addLogs reliable [] (Some ''d1'') (map appendNumbered [0..<205]))
               (getDeviceLogsKey ''d1'')) = 200
   \<and> length (bucketOf (addLogs reliable [] (Some ''d1'') (map appendNumbered [0..<205]))
               SYSTEM_LOGS_KEY) = 100
   \<and> map_sum id (map l_id) (getDeviceLogs
        (snd (addDeviceLogs exampleStore ''d1'' [appendNumbered 1, appendNumbered 2])) ''d1'')
       = Inr [''xx'', ''x'', ''l1'']
   \<and> getProp (logs (store exampleStore)) ''constructor'' = Inherited
   \<and> addDeviceLog exampleStore ''n1'' ''2024-01-01'' ''constructor'' ''Gate Open'' ''opened'' True Relay
       = (Inl TypeError, exampleStore)"
proof -
  have h: "''d1'' \<noteq> []" "\<not> readFails reliable (getDeviceLogsKey ''d1'')"
    "\<not> writeFails reliable (getDeviceLogsKey ''d1'')"
    "\<not> readFails reliable SYSTEM_LOGS_KEY" "\<not> writeFails reliable SYSTEM_LOGS_KEY"
    by (simp_all add: reliable_def)
  have e: "map appendNumbered [0..<205] \<noteq> []" by simp
  have e2: "[appendNumbered 1, appendNumbered 2] \<noteq> []" by simp
  have kd: "(if ''d1'' = [] \<or> trim ''d1'' = [] then ''system'' else ''d1'') = ''d1''"
    by (simp add: trim_def isSpace_def)
  have kc: "(if ''constructor'' = [] \<or> trim ''constructor'' = [] then ''system'' else ''constructor'')
      = ''constructor''"
    by (simp add: trim_def isSpace_def)
  have own: "getProp (logs (store exampleStore)) ''d1'' = Own [logEntryWithId ''l1'']"
    by (simp add: getProp_def exampleStore_def exampleData_def)
  have usable: "getProp (logs (store exampleStore)) ''d1'' \<noteq> Inherited"
    by (simp add: own)
  have inh: "getProp (logs (store exampleStore)) ''constructor'' = Inherited"
    by (simp add: getProp_def exampleStore_def exampleData_def objectPrototypeNames_def)
  have "trim ''d1'' \<noteq> []" by (simp add: trim_def isSpace_def)
  then have old: "getDeviceLogs exampleStore ''d1'' = Inr [logEntryWithId ''l1'']"
    by (simp add: getDeviceLogs_def Let_def own)
  note big = log_buckets_bounded[OF h e, of exampleStore "''d1''"
      "''n1''" "''2024-01-01''" "''Gate Open''" "''opened''" True Relay "[]" "Some ''d1''",
      unfolded kd]
  note small = log_buckets_bounded[OF h e2, of exampleStore "''d1''"
      "''n1''" "''2024-01-01''" "''Gate Open''" "''opened''" True Relay, unfolded kd]
  note raise = log_buckets_bounded[OF h e2, of exampleStore "''constructor''"
      "''n1''" "''2024-01-01''" "''Gate Open''" "''opened''" True Relay, unfolded kc]
  from small[THEN conjunct1, rule_format, OF usable] obtain old2 new2 where
    "getDeviceLogs exampleStore ''d1'' = Inr old2"
    "getDeviceLogs (snd (addDeviceLogs exampleStore ''d1''
        [appendNumbered 1, appendNumbered 2])) ''d1'' = Inr new2"
    "new2 = take 200 (rev (map (entryOf None) [appendNumbered 1, appendNumbered 2]) @ old2)"
    by blast
  then have "getDeviceLogs (snd (addDeviceLogs exampleStore ''d1''
        [appendNumbered 1, appendNumbered 2])) ''d1''
      = Inr [entryOf None (appendNumbered 2), entryOf None (appendNumbered 1), logEntryWithId ''l1'']"
    by (auto simp: old)
  then have ids: "map_sum id (map l_id) (getDeviceLogs
        (snd (addDeviceLogs exampleStore ''d1'' [appendNumbered 1, appendNumbered 2])) ''d1'')
       = Inr [''xx'', ''x'', ''l1'']"
    by (simp add: entryOf_def appendNumbered_def logEntryWithId_def numeral_2_eq_2)
  from big[THEN conjunct1, rule_format, OF usable] obtain new where
    "getDeviceLogs (snd (addDeviceLogs exampleStore ''d1'' (map appendNumbered [0..<205]))) ''d1''
       = Inr new"
    "length (map appendNumbered [0..<205]) = 205 \<longrightarrow> length new = 200"
    by blast
  then have len:
    "map_sum id length
        (getDeviceLogs (snd (addDeviceLogs exampleStore ''d1'' (map appendNumbered [0..<205]))) ''d1'')
       = Inr 200"
    by simp
  from big[THEN conjunct2, THEN conjunct2] have lens:
    "length (bucketOf (addLogs reliable [] (Some ''d1'') (map appendNumbered [0..<205]))
               (getDeviceLogsKey ''d1'')) = 200"
    "length (bucketOf (addLogs reliable [] (Some ''d1'') (map appendNumbered [0..<205]))
               SYSTEM_LOGS_KEY) = 100"
    by simp_all
  from raise[THEN conjunct2, THEN conjunct1, rule_format, OF inh] have err:
    "addDeviceLog exampleStore ''n1'' ''2024-01-01'' ''constructor'' ''Gate Open'' ''opened'' True Relay
       = (Inl TypeError, exampleStore)"
    by (rule conjunct1[OF conjunct2])
  from h(1) e usable ids len lens inh err show ?thesis by simp
qed

theorem log_buckets_counterexample:
  "addDeviceLog (storeOf initialState) ''n1'' ''2024-01-01'' ''constructor'' ''Gate Open'' ''opened''
       True Relay = (Inl TypeError, storeOf initialState)
   \<and> addDeviceLogs (storeOf initialState) ''constructor'' [appendNumbered 1, appendNumbered 2]
       = ([Inl TypeError, Inl TypeError], storeOf initialState)
   \<and> getDeviceLogs (storeOf initialState) ''constructor'' = Inl TypeError
   \<and> logs (store (snd (addDeviceLogs (storeOf initialState) ''constructor''
        [appendNumbered 1, appendNumbered 2]))) = []"
  by code_simp

end
